theory Spec2Isabelle
  imports Complex_Main
begin

section \<open>Numbers\<close>

text \<open>
  The player is TypeScript: every \<open>number\<close> is an IEEE double, and \<open>+\<close>, \<open>-\<close>, \<open>*\<close> and
  \<open>/\<close> round their exact result to the nearest double, a tie going to the even
  significand.  A finite double is modelled by the real number it denotes.  \<open>NaN\<close>, the
  infinities and results beyond the largest double are not modelled.  Comparison,
  \<open>Math.min\<close>, \<open>Math.max\<close> and \<open>Math.floor\<close> are exact.  Quantities that the code keeps
  integral (lyric timestamps, \<open>Date.now()\<close>, the publish interval) are modelled as \<open>int\<close>.
  Strings are \<open>char list\<close>, one \<open>char\<close> for one code unit.
\<close>

definition roundTiesToEven :: "real \<Rightarrow> int" where
  "roundTiesToEven x =
     (let f = \<lfloor>x\<rfloor>; d = x - of_int f
      in if d < 1 / 2 then f else if 1 / 2 < d then f + 1 else if even f then f else f + 1)"

text \<open>
  The exponent \<open>e\<close> with \<open>2^e \<le> x < 2^(e+1)\<close> of a positive \<open>x\<close>, found by doubling or
  halving; it stops at \<open>-1022\<close>, the exponent of the subnormal doubles, and at \<open>1023\<close>.
\<close>

fun binadeBelow :: "nat \<Rightarrow> real \<Rightarrow> int" where
  "binadeBelow 0 x = 0"
| "binadeBelow (Suc k) x = (if 1 \<le> 2 * x then - 1 else binadeBelow k (2 * x) - 1)"

fun binadeAbove :: "nat \<Rightarrow> real \<Rightarrow> int" where
  "binadeAbove 0 x = 0"
| "binadeAbove (Suc k) x = (if x < 2 then 0 else binadeAbove k (x / 2) + 1)"

definition binade :: "real \<Rightarrow> int" where
  "binade x = (if x < 1 then binadeBelow 1022 x else binadeAbove 1023 x)"

text \<open>The distance between neighbouring doubles around \<open>x\<close>: 52 bits below the exponent.\<close>

definition ulp :: "real \<Rightarrow> real" where
  "ulp x = 2 powi (binade \<bar>x\<bar> - 52)"

text \<open>The double nearest to a real number.\<close>

definition fl :: "real \<Rightarrow> real" where
  "fl x = (if x = 0 then 0 else sgn x * of_int (roundTiesToEven (\<bar>x\<bar> / ulp x)) * ulp x)"

text \<open>The arithmetic operators of the language.\<close>

definition fadd :: "real \<Rightarrow> real \<Rightarrow> real" where
  "fadd x y = fl (x + y)"

definition fsub :: "real \<Rightarrow> real \<Rightarrow> real" where
  "fsub x y = fl (x - y)"

definition fmul :: "real \<Rightarrow> real \<Rightarrow> real" where
  "fmul x y = fl (x * y)"

definition fdiv :: "real \<Rightarrow> real \<Rightarrow> real" where
  "fdiv x y = fl (x / y)"

section \<open>Scroll profile (App.tsx, dwell handlers)\<close>

text \<open>\<^verbatim>\<open>const MIN_SCROLL_PORTION = 0.1;\<close>  The literal is the double nearest to one tenth.\<close>

definition MIN_SCROLL_PORTION :: real where
  "MIN_SCROLL_PORTION = fl (1 / 10)"

record ScrollProfile =
  scrollDwellStart :: real
  scrollDwellEnd :: real

text \<open>
  \<^verbatim>\<open>const clamped = Math.min(0.9, Math.max(0, nextValue));
  setScrollDwellStart(clamped);
  setScrollDwellEnd((prev) => { const maxEnd = 1 - MIN_SCROLL_PORTION - clamped;
                                return Math.min(prev, Math.max(0, maxEnd)); });\<close>
\<close>

definition handleScrollDwellStartChange :: "real \<Rightarrow> ScrollProfile \<Rightarrow> ScrollProfile" where
  "handleScrollDwellStartChange nextValue s =
     (let clamped = min (fl (9 / 10)) (max 0 nextValue);
          maxEnd = fsub (fsub 1 MIN_SCROLL_PORTION) clamped
      in \<lparr> scrollDwellStart = clamped,
           scrollDwellEnd = min (scrollDwellEnd s) (max 0 maxEnd) \<rparr>)"

definition handleScrollDwellEndChange :: "real \<Rightarrow> ScrollProfile \<Rightarrow> ScrollProfile" where
  "handleScrollDwellEndChange nextValue s =
     (let clamped = min (fl (9 / 10)) (max 0 nextValue);
          maxStart = fsub (fsub 1 MIN_SCROLL_PORTION) clamped
      in \<lparr> scrollDwellStart = min (scrollDwellStart s) (max 0 maxStart),
           scrollDwellEnd = clamped \<rparr>)"

text \<open>One slider event; a session is a list of them, applied in order.\<close>

datatype DwellUpdate = SetDwellStart real | SetDwellEnd real

fun applyDwellUpdate :: "ScrollProfile \<Rightarrow> DwellUpdate \<Rightarrow> ScrollProfile" where
  "applyDwellUpdate s (SetDwellStart v) = handleScrollDwellStartChange v s"
| "applyDwellUpdate s (SetDwellEnd v) = handleScrollDwellEndChange v s"

definition applyDwellUpdates :: "ScrollProfile \<Rightarrow> DwellUpdate list \<Rightarrow> ScrollProfile" where
  "applyDwellUpdates s us = foldl applyDwellUpdate s us"

text \<open>
  The invariant as the data model states it, \<open>dwellStart + dwellEnd \<le> 0.9\<close> with both
  fractions in \<open>[0, 0.9]\<close>, and the invariant that the handlers keep: the same with
  half the distance between neighbouring doubles added to the bound on the sum.
\<close>

definition statedDwellInvariant :: "ScrollProfile \<Rightarrow> bool" where
  "statedDwellInvariant s \<longleftrightarrow>
     scrollDwellStart s + scrollDwellEnd s \<le> fl (9 / 10) \<and>
     0 \<le> scrollDwellStart s \<and> scrollDwellStart s \<le> fl (9 / 10) \<and>
     0 \<le> scrollDwellEnd s \<and> scrollDwellEnd s \<le> fl (9 / 10)"

definition dwellInvariant :: "ScrollProfile \<Rightarrow> bool" where
  "dwellInvariant s \<longleftrightarrow>
     scrollDwellStart s + scrollDwellEnd s \<le> fl (9 / 10) + 1 / 2 ^ 54 \<and>
     0 \<le> scrollDwellStart s \<and> scrollDwellStart s \<le> fl (9 / 10) \<and>
     0 \<le> scrollDwellEnd s \<and> scrollDwellEnd s \<le> fl (9 / 10)"

section \<open>Scroll progress calculator (App.tsx, lyricWindow)\<close>

text \<open>
  \<^verbatim>\<open>const raw = 1 - scrollDwellStart - scrollDwellEnd;
  return Math.max(MIN_SCROLL_PORTION, raw);\<close>
\<close>

definition scrollPortion :: "real \<Rightarrow> real \<Rightarrow> real" where
  "scrollPortion dwellStart dwellEnd =
     (let raw = fsub (fsub 1 dwellStart) dwellEnd in max MIN_SCROLL_PORTION raw)"

text \<open>
  The arguments are \<open>currentLineStartMs\<close>, \<open>currentLineEndMs\<close> and the playback position
  \<open>currentTime * 1000\<close>.
  \<^verbatim>\<open>const lineDurationMs = Math.max(300, currentLineEndMs - currentLineStartMs);
  const elapsedInLineMs = currentTime * 1000 - currentLineStartMs;
  const normalizedLineProgress = Math.min(1, Math.max(0, elapsedInLineMs / lineDurationMs));\<close>
\<close>

definition lineDurationMs :: "real \<Rightarrow> real \<Rightarrow> real" where
  "lineDurationMs currentLineStartMs currentLineEndMs =
     max 300 (fsub currentLineEndMs currentLineStartMs)"

definition normalizedLineProgress :: "real \<Rightarrow> real \<Rightarrow> real \<Rightarrow> real" where
  "normalizedLineProgress currentLineStartMs currentLineEndMs currentMs =
     (let elapsedInLineMs = fsub currentMs currentLineStartMs
      in min 1 (max 0 (fdiv elapsedInLineMs (lineDurationMs currentLineStartMs currentLineEndMs))))"

text \<open>
  \<^verbatim>\<open>const scrollEnd = Math.min(1 - MIN_SCROLL_PORTION, scrollDwellStart + scrollPortion);\<close>
\<close>

definition scrollEnd :: "real \<Rightarrow> real \<Rightarrow> real" where
  "scrollEnd dwellStart dwellEnd =
     min (fsub 1 MIN_SCROLL_PORTION) (fadd dwellStart (scrollPortion dwellStart dwellEnd))"

text \<open>
  \<^verbatim>\<open>if (normalizedLineProgress <= scrollStart) { progress = 0; }
  else if (normalizedLineProgress >= scrollEnd) { progress = 1; }
  else { progress = (normalizedLineProgress - scrollStart) / (scrollEnd - scrollStart); }\<close>
  In the last branch \<open>scrollStart < scrollEnd\<close>, and the difference of two distinct
  doubles is not zero, so the division is by a positive number.
\<close>

definition scrollProgress :: "real \<Rightarrow> real \<Rightarrow> real \<Rightarrow> real" where
  "scrollProgress dwellStart dwellEnd normalized =
     (let scrollStart = dwellStart;
          scrollEnd = scrollEnd dwellStart dwellEnd
      in if normalized \<le> scrollStart then 0
         else if normalized \<ge> scrollEnd then 1
         else fdiv (fsub normalized scrollStart) (fsub scrollEnd scrollStart))"

text \<open>
  \<^verbatim>\<open>currentWindows.length <= 1 ? 0
    : Math.min(currentWindows.length - 1, Math.floor(progress * (currentWindows.length - 1)))\<close>
\<close>

definition currentWindowIndex :: "nat \<Rightarrow> real \<Rightarrow> int" where
  "currentWindowIndex windowCount progress =
     (if windowCount \<le> 1 then 0
      else min (int windowCount - 1) \<lfloor>fmul progress (real windowCount - 1)\<rfloor>)"

definition lyricWindowIndex :: "real \<Rightarrow> real \<Rightarrow> real \<Rightarrow> real \<Rightarrow> real \<Rightarrow> nat \<Rightarrow> int" where
  "lyricWindowIndex currentLineStartMs currentLineEndMs currentMs dwellStart dwellEnd windowCount =
     currentWindowIndex windowCount
       (scrollProgress dwellStart dwellEnd
          (normalizedLineProgress currentLineStartMs currentLineEndMs currentMs))"

text \<open>
  The selection as the scroll calculator's contract words it, in exact arithmetic: raw
  progress \<open>(c - a) / max(300, b - a)\<close> clamped to \<open>[0,1]\<close>,
  \<open>scrollPortion = max(0.1, 1 - dwellStart - dwellEnd)\<close>,
  \<open>scrollEnd = min(0.9, dwellStart + scrollPortion)\<close>, the mapped progress, and the
  index \<open>clamp(floor(mapped * (n - 1)), 0, n - 1)\<close>.
\<close>

definition statedWindowIndex :: "real \<Rightarrow> real \<Rightarrow> real \<Rightarrow> real \<Rightarrow> real \<Rightarrow> nat \<Rightarrow> int" where
  "statedWindowIndex a b c dwellStart dwellEnd n =
     (let raw = min 1 (max 0 ((c - a) / max 300 (b - a)));
          sEnd = min (9 / 10) (dwellStart + max (1 / 10) (1 - dwellStart - dwellEnd));
          mapped = (if raw \<le> dwellStart then 0 else if raw \<ge> sEnd then 1
                    else (raw - dwellStart) / (sEnd - dwellStart))
      in if n \<le> 1 then 0 else max 0 (min (int n - 1) \<lfloor>mapped * (real n - 1)\<rfloor>))"

section \<open>Lyric timeline and active-line resolver (lib/lrc.ts)\<close>

text \<open>\<^verbatim>\<open>export interface LyricLine { timeMs: number; text: string; }\<close>\<close>

record LyricLine =
  timeMs :: int
  lineText :: string

text \<open>
  Reading \<open>lines[mid]\<close> outside the array gives \<open>undefined\<close>, and \<open>undefined.timeMs\<close>
  throws; the model keeps that branch.
\<close>

datatype js_error = TypeError

text \<open>
  \<^verbatim>\<open>while (left <= right) {
    const mid = Math.floor((left + right) / 2);
    if (lines[mid].timeMs <= currentMs) { answer = mid; left = mid + 1; }
    else { right = mid - 1; }
  }
  return answer;\<close>
\<close>

function activeLyricIndex_loop ::
  "LyricLine list \<Rightarrow> real \<Rightarrow> int \<Rightarrow> int \<Rightarrow> int \<Rightarrow> js_error + int" where
  "activeLyricIndex_loop lines currentMs left right answer =
     (if left \<le> right then
        (let mid = (left + right) div 2 in
         if mid < 0 \<or> int (length lines) \<le> mid then Inl TypeError
         else if real_of_int (timeMs (lines ! nat mid)) \<le> currentMs
              then activeLyricIndex_loop lines currentMs (mid + 1) right mid
              else activeLyricIndex_loop lines currentMs left (mid - 1) answer)
      else Inr answer)"
  by pat_completeness auto
termination
  by (relation "measure (\<lambda>(lines, currentMs, left, right, answer). nat (right - left + 1))") auto

declare activeLyricIndex_loop.simps [simp del]

definition activeLyricIndex :: "LyricLine list \<Rightarrow> real \<Rightarrow> js_error + int" where
  "activeLyricIndex lines currentMs =
     (if length lines = 0 then Inr (- 1)
      else activeLyricIndex_loop lines currentMs 0 (int (length lines) - 1) (- 1))"

text \<open>The timeline of the example \<open>[00:12.50]Hello\<close>, \<open>[00:15.00]World\<close>.\<close>

definition exampleTimeline :: "LyricLine list" where
  "exampleTimeline =
     [\<lparr>timeMs = 12500, lineText = ''Hello''\<rparr>, \<lparr>timeMs = 15000, lineText = ''World''\<rparr>]"

section \<open>Publish throttler (App.tsx, media-session effect)\<close>

record BluetoothMetadataPayload =
  title :: string
  artist :: string
  album :: string
  artworkUrl :: "string option"

text \<open>
  The four refs of the effect, the host's table of outstanding timeouts (handle and the
  earliest time at which the host may run the callback), the host's next handle, and the
  log of payloads written to \<open>navigator.mediaSession.metadata\<close> with the time of each
  write.  The signature \<open>JSON.stringify(payload)\<close> determines the payload, so the
  signature ref holds the payload itself.
\<close>

record ThrottleState =
  lastMetadataSentAt :: int
  lastSentMetadataSignature :: "BluetoothMetadataPayload option"
  pendingMetadata :: "BluetoothMetadataPayload option"
  metadataFlushTimer :: "nat option"
  timers :: "(nat \<times> int) list"
  nextTimerId :: nat
  sent :: "(int \<times> BluetoothMetadataPayload) list"

definition initialThrottle :: ThrottleState where
  "initialThrottle =
     \<lparr> lastMetadataSentAt = 0, lastSentMetadataSignature = None, pendingMetadata = None,
       metadataFlushTimer = None, timers = [], nextTimerId = 0, sent = [] \<rparr>"

text \<open>
  \<^verbatim>\<open>navigator.mediaSession.metadata = new MediaMetadata({...});
  lastMetadataSentAtRef.current = Date.now();
  lastSentMetadataSignatureRef.current = JSON.stringify(payload);\<close>
\<close>

definition publishPayload :: "int \<Rightarrow> BluetoothMetadataPayload \<Rightarrow> ThrottleState \<Rightarrow> ThrottleState" where
  "publishPayload now payload s =
     s\<lparr> sent := sent s @ [(now, payload)],
        lastMetadataSentAt := now,
        lastSentMetadataSignature := Some payload \<rparr>"

text \<open>
  \<^verbatim>\<open>if (metadataFlushTimerRef.current !== null) {
    window.clearTimeout(metadataFlushTimerRef.current);
    metadataFlushTimerRef.current = null;
  }\<close>
\<close>

definition clearFlushTimer :: "ThrottleState \<Rightarrow> ThrottleState" where
  "clearFlushTimer s =
     (case metadataFlushTimer s of
        None \<Rightarrow> s
      | Some h \<Rightarrow> s\<lparr> timers := filter (\<lambda>(i, due). i \<noteq> h) (timers s),
                      metadataFlushTimer := None \<rparr>)"

text \<open>
  The throttling part of the effect, from \<open>const now = Date.now()\<close> to the call of
  \<open>window.setTimeout\<close>.
\<close>

definition submitPayload :: "int \<Rightarrow> int \<Rightarrow> BluetoothMetadataPayload \<Rightarrow> ThrottleState \<Rightarrow> ThrottleState" where
  "submitPayload metadataRefreshIntervalMs now nextPayload s =
     (let elapsedMs = now - lastMetadataSentAt s in
      if elapsedMs \<ge> metadataRefreshIntervalMs
      then publishPayload now nextPayload ((clearFlushTimer s)\<lparr> pendingMetadata := None \<rparr>)
      else
        (let s1 = s\<lparr> pendingMetadata := Some nextPayload \<rparr> in
         if metadataFlushTimer s1 \<noteq> None then s1
         else
           (let waitMs = max 0 (metadataRefreshIntervalMs - elapsedMs) in
            s1\<lparr> metadataFlushTimer := Some (nextTimerId s1),
                timers := timers s1 @ [(nextTimerId s1, now + waitMs)],
                nextTimerId := nextTimerId s1 + 1 \<rparr>)))"

text \<open>
  One run of the effect at time \<open>now\<close>; a run takes no time, so every \<open>Date.now()\<close> in
  it reads \<open>now\<close>.  The first argument is the value of \<open>metadataRefreshIntervalMs\<close> that
  the run reads.  \<open>None\<close> is the run with \<open>currentMetadata\<close> null: the timer is cancelled
  and the refs are cleared (the media session's metadata is set to null, which publishes
  no payload and is not logged).  \<open>Some nextPayload\<close> is the run with the composed
  payload: nothing happens when it equals the last payload sent and no payload is pending.
\<close>

definition metadataEffect ::
  "int \<Rightarrow> int \<Rightarrow> BluetoothMetadataPayload option \<Rightarrow> ThrottleState \<Rightarrow> ThrottleState" where
  "metadataEffect metadataRefreshIntervalMs now candidate s =
     (case candidate of
        None \<Rightarrow> (clearFlushTimer s)\<lparr> pendingMetadata := None, lastSentMetadataSignature := None \<rparr>
      | Some nextPayload \<Rightarrow>
          if Some nextPayload = lastSentMetadataSignature s \<and> pendingMetadata s = None then s
          else submitPayload metadataRefreshIntervalMs now nextPayload s)"

text \<open>
  The callback given to \<open>setTimeout\<close>:
  \<^verbatim>\<open>metadataFlushTimerRef.current = null;
  const pending = pendingMetadataRef.current;
  if (!pending) { return; }
  pendingMetadataRef.current = null;
  publishPayload(pending);\<close>
\<close>

definition flushTimerFired :: "int \<Rightarrow> ThrottleState \<Rightarrow> ThrottleState" where
  "flushTimerFired now s =
     (let s1 = s\<lparr> metadataFlushTimer := None \<rparr> in
      case pendingMetadata s1 of
        None \<Rightarrow> s1
      | Some pending \<Rightarrow> publishPayload now pending (s1\<lparr> pendingMetadata := None \<rparr>))"

text \<open>
  What can happen at a time \<open>now\<close>: the effect runs, with the interval configured at
  that moment and the payload composed at that moment (the interval is a dependency of the
  effect, so changing it runs the effect too), or the host runs the callback of an
  outstanding timeout whose delay has passed (and drops it from its table).  An event that
  cannot happen gives \<open>None\<close>.
\<close>

datatype ThrottleEvent = EffectRuns int "BluetoothMetadataPayload option" | TimerFires nat

fun throttleStep :: "ThrottleState \<Rightarrow> int \<times> ThrottleEvent \<Rightarrow> ThrottleState option" where
  "throttleStep s (now, EffectRuns interval candidate) =
     Some (metadataEffect interval now candidate s)"
| "throttleStep s (now, TimerFires h) =
     (case map_of (timers s) h of
        None \<Rightarrow> None
      | Some due \<Rightarrow>
          if due \<le> now
          then Some (flushTimerFired now (s\<lparr> timers := filter (\<lambda>(i, due). i \<noteq> h) (timers s) \<rparr>))
          else None)"

fun throttleRun :: "ThrottleState \<Rightarrow> (int \<times> ThrottleEvent) list \<Rightarrow> ThrottleState option" where
  "throttleRun s [] = Some s"
| "throttleRun s (e # es) =
     (case throttleStep s e of None \<Rightarrow> None | Some s' \<Rightarrow> throttleRun s' es)"

text \<open>The interval that an event reads is at least \<open>m\<close>.\<close>

fun intervalAtLeast :: "int \<Rightarrow> int \<times> ThrottleEvent \<Rightarrow> bool" where
  "intervalAtLeast m (now, EffectRuns interval candidate) \<longleftrightarrow> m \<le> interval"
| "intervalAtLeast m (now, TimerFires h) \<longleftrightarrow> True"

text \<open>Consecutive times are at least \<open>interval\<close> apart.\<close>

fun spaced :: "int \<Rightarrow> int list \<Rightarrow> bool" where
  "spaced interval (t1 # t2 # ts) \<longleftrightarrow> t1 + interval \<le> t2 \<and> spaced interval (t2 # ts)"
| "spaced interval ts \<longleftrightarrow> True"

text \<open>
  The invariant of the throttler, for a lower bound \<open>m\<close> of the intervals configured so
  far: the log is spaced by \<open>m\<close> and ends at the recorded send time; the host holds a
  timeout exactly when the ref holds its handle, then a payload is pending and the timeout
  is due no earlier than \<open>m\<close> after the last send.
\<close>

definition throttleInvariant :: "int \<Rightarrow> ThrottleState \<Rightarrow> bool" where
  "throttleInvariant m s \<longleftrightarrow>
     spaced m (map fst (sent s)) \<and>
     (sent s = [] \<or> fst (last (sent s)) = lastMetadataSentAt s) \<and>
     (case metadataFlushTimer s of
        None \<Rightarrow> timers s = []
      | Some h \<Rightarrow> pendingMetadata s \<noteq> None \<and>
          (\<exists>due. timers s = [(h, due)] \<and> lastMetadataSentAt s + m \<le> due))"

definition payloadA :: BluetoothMetadataPayload where
  "payloadA = \<lparr> title = ''Song'', artist = ''Band'', album = ''Album'', artworkUrl = None \<rparr>"

definition payloadB :: BluetoothMetadataPayload where
  "payloadB = \<lparr> title = '' '', artist = ''first line'', album = ''second line'', artworkUrl = None \<rparr>"

definition payloadC :: BluetoothMetadataPayload where
  "payloadC = \<lparr> title = ''first line'', artist = ''second line'', album = ''third line'', artworkUrl = None \<rparr>"

section \<open>Grapheme-aware text fitter (App.tsx, buildFittingWindows)\<close>

text \<open>
  The characters that \<open>trim\<close> and \<open>trimStart\<close> strip, among the characters below 256:
  tab, line feed, vertical tab, form feed, carriage return, space and no-break space.
\<close>

definition isWhitespace :: "char \<Rightarrow> bool" where
  "isWhitespace c \<longleftrightarrow>
     c = CHR 0x09 \<or> c = CHR 0x0A \<or> c = CHR 0x0B \<or> c = CHR 0x0C \<or> c = CHR 0x0D
     \<or> c = CHR '' '' \<or> c = CHR 0xA0"

definition trimStart :: "string \<Rightarrow> string" where
  "trimStart s = dropWhile isWhitespace s"

definition trimEnd :: "string \<Rightarrow> string" where
  "trimEnd s = rev (dropWhile isWhitespace (rev s))"

definition trim :: "string \<Rightarrow> string" where
  "trim s = trimEnd (trimStart s)"

text \<open>
  \<^verbatim>\<open>if (typeof maybeIntl.Segmenter === "function") {
    const segmenter = new maybeIntl.Segmenter(undefined, { granularity: "grapheme" });
    return Array.from(segmenter.segment(text), (part) => part.segment);
  }
  return Array.from(text);\<close>
  The first argument is the host's grapheme segmenter, when it has one: a function that
  gives the grapheme clusters of a string in order.  Without it every character is a
  cluster.
\<close>

definition splitGraphemes :: "(string \<Rightarrow> string list) option \<Rightarrow> string \<Rightarrow> string list" where
  "splitGraphemes segmenter text =
     (case segmenter of
        Some segment \<Rightarrow> segment text
      | None \<Rightarrow> map (\<lambda>c. [c]) text)"

text \<open>
  A segmenter for the examples, as a host segments text of characters below 256: a carriage
  return with the line feed after it is one cluster, every other character is a cluster of
  its own.
\<close>

fun segmentLatin1 :: "string \<Rightarrow> string list" where
  "segmentLatin1 [] = []"
| "segmentLatin1 [c] = [[c]]"
| "segmentLatin1 (c # d # cs) =
     (if c = CHR 0x0D \<and> d = CHR 0x0A then [c, d] # segmentLatin1 cs
      else [c] # segmentLatin1 (d # cs))"

text \<open>
  The measurer of a host without a canvas context:
  \<^verbatim>\<open>return (text: string) => text.length * 8;\<close>
\<close>

definition fallbackMeasure :: "string \<Rightarrow> real" where
  "fallbackMeasure s = real (length s) * 8"

text \<open>
  The inner loop, over the graphemes from \<open>end\<close> on:
  \<^verbatim>\<open>for (let end = start; end < graphemes.length; end += 1) {
    const nextCandidate = candidate + graphemes[end];
    if (measureWidth(nextCandidate.trimStart()) <= maxWidthPx) {
      candidate = nextCandidate;
      reachedLineEnd = end === graphemes.length - 1;
      continue;
    }
    break;
  }\<close>
\<close>

fun extendWindow ::
  "(string \<Rightarrow> real) \<Rightarrow> real \<Rightarrow> string \<Rightarrow> bool \<Rightarrow> string list \<Rightarrow> string \<times> bool" where
  "extendWindow measureWidth maxWidthPx candidate reachedLineEnd [] = (candidate, reachedLineEnd)"
| "extendWindow measureWidth maxWidthPx candidate reachedLineEnd (g # rest) =
     (let nextCandidate = candidate @ g in
      if measureWidth (trimStart nextCandidate) \<le> maxWidthPx
      then extendWindow measureWidth maxWidthPx nextCandidate (rest = []) rest
      else (candidate, reachedLineEnd))"

text \<open>
  \<^verbatim>\<open>const normalized = candidate.trimStart();
  const finalWindow = normalized || candidate;\<close>
\<close>

definition finalWindow :: "string \<Rightarrow> string" where
  "finalWindow candidate =
     (let normalized = trimStart candidate in if normalized = [] then candidate else normalized)"

text \<open>
  \<^verbatim>\<open>if (windows[windows.length - 1] !== finalWindow) { windows.push(finalWindow); }\<close>
\<close>

definition pushWindow :: "string list \<Rightarrow> string \<Rightarrow> string list" where
  "pushWindow windows w = (if windows \<noteq> [] \<and> last windows = w then windows else windows @ [w])"

text \<open>
  The outer loop, over the graphemes from \<open>start\<close> on, with the windows recorded so far.
\<close>

fun scanWindows :: "(string \<Rightarrow> real) \<Rightarrow> real \<Rightarrow> string list \<Rightarrow> string list \<Rightarrow> string list" where
  "scanWindows measureWidth maxWidthPx [] windows = windows"
| "scanWindows measureWidth maxWidthPx (g # rest) windows =
     (let scanned = extendWindow measureWidth maxWidthPx [] False (g # rest);
          candidate = (if fst scanned = [] then g else fst scanned);
          reachedLineEnd = snd scanned;
          windows' = pushWindow windows (finalWindow candidate)
      in if reachedLineEnd then windows' else scanWindows measureWidth maxWidthPx rest windows')"

text \<open>A text with a line break in it, for the examples.\<close>

definition crlfText :: string where
  "crlfText = ''ab'' @ [CHR 0x0D, CHR 0x0A] @ ''cd''"

definition buildFittingWindows ::
  "(string \<Rightarrow> string list) option \<Rightarrow> string \<Rightarrow> real \<Rightarrow> (string \<Rightarrow> real) \<Rightarrow> string list" where
  "buildFittingWindows segmenter text maxWidthPx measureWidth =
     (if trim text = [] then [[]]
      else if measureWidth (trimStart text) \<le> maxWidthPx then [trimStart text]
      else
        (let graphemes = splitGraphemes segmenter text;
             windows = scanWindows measureWidth maxWidthPx graphemes []
         in if length windows > 0 then windows else [text]))"

section \<open>Timeline parser (lib/lrc.ts, parseLrc)\<close>

definition isDigit :: "char \<Rightarrow> bool" where
  "isDigit c \<longleftrightarrow> c \<in> set ''0123456789''"

text \<open>
  The ways \<open>\d{lo,hi}\<close> can match at the start of a string, in the order a backtracking
  matcher tries them: the longest run first.  Each is the digits taken and the rest.
\<close>

definition digitRuns :: "nat \<Rightarrow> nat \<Rightarrow> string \<Rightarrow> (string \<times> string) list" where
  "digitRuns lo hi s =
     (let n = length (takeWhile isDigit (take hi s))
      in map (\<lambda>k. (take k s, drop k s)) (rev [lo ..< Suc n]))"

text \<open>The first alternative, in order, with which the rest of the pattern matches.\<close>

fun firstMatch :: "('a \<Rightarrow> 'b option) \<Rightarrow> 'a list \<Rightarrow> 'b option" where
  "firstMatch f [] = None"
| "firstMatch f (x # xs) = (case f x of Some y \<Rightarrow> Some y | None \<Rightarrow> firstMatch f xs)"

text \<open>A literal character of the pattern.\<close>

definition literal :: "char \<Rightarrow> string \<Rightarrow> string option" where
  "literal c s = (case s of [] \<Rightarrow> None | d # rest \<Rightarrow> if d = c then Some rest else None)"

text \<open>
  The optional group \<open>(?:\.(\d{1,3}))?\<close>: with the group first, without it last.
\<close>

definition fractionAlternatives :: "string \<Rightarrow> (string option \<times> string) list" where
  "fractionAlternatives s =
     (case literal CHR ''.'' s of
        None \<Rightarrow> []
      | Some t \<Rightarrow> map (\<lambda>(fraction, rest). (Some fraction, rest)) (digitRuns 1 3 t))
     @ [(None, s)]"

text \<open>
  \<^verbatim>\<open>const TIMESTAMP_REGEX = /\[(\d{1,2}):(\d{2})(?:\.(\d{1,3}))?\]/g;\<close>
  A match of the pattern at the start of the string: the three groups and the text after
  the match.
\<close>

fun matchClose ::
  "string \<Rightarrow> string \<Rightarrow> string option \<times> string \<Rightarrow> (string \<times> string \<times> string option \<times> string) option" where
  "matchClose minutes seconds (fraction, s) =
     (case literal CHR '']'' s of
        None \<Rightarrow> None
      | Some rest \<Rightarrow> Some (minutes, seconds, fraction, rest))"

fun matchSeconds ::
  "string \<Rightarrow> string \<times> string \<Rightarrow> (string \<times> string \<times> string option \<times> string) option" where
  "matchSeconds minutes (seconds, s) =
     firstMatch (matchClose minutes seconds) (fractionAlternatives s)"

fun matchMinutes :: "string \<times> string \<Rightarrow> (string \<times> string \<times> string option \<times> string) option" where
  "matchMinutes (minutes, s) =
     (case literal CHR '':'' s of
        None \<Rightarrow> None
      | Some s' \<Rightarrow> firstMatch (matchSeconds minutes) (digitRuns 2 2 s'))"

definition matchTimestamp :: "string \<Rightarrow> (string \<times> string \<times> string option \<times> string) option" where
  "matchTimestamp s =
     (case literal CHR ''['' s of
        None \<Rightarrow> None
      | Some s' \<Rightarrow> firstMatch matchMinutes (digitRuns 1 2 s'))"

text \<open>\<open>Number\<close> of a string of decimal digits, and \<open>padEnd(3, "0")\<close>.\<close>

definition digitValue :: "char \<Rightarrow> int" where
  "digitValue c = int (of_char c) - 48"

definition Number :: "string \<Rightarrow> int" where
  "Number s = foldl (\<lambda>acc c. 10 * acc + digitValue c) 0 s"

definition padEnd3 :: "string \<Rightarrow> string" where
  "padEnd3 s = s @ replicate (3 - length s) CHR ''0''"

text \<open>
  \<^verbatim>\<open>const minutes = Number(match[1]);
  const seconds = Number(match[2]);
  const fraction = match[3] ?? "0";
  const millis = Number(fraction.padEnd(3, "0"));
  return minutes * 60000 + seconds * 1000 + millis;\<close>
\<close>

definition parseTimestampMs :: "string \<times> string \<times> string option \<Rightarrow> int" where
  "parseTimestampMs match =
     (case match of (m1, m2, m3) \<Rightarrow>
        let minutes = Number m1;
            seconds = Number m2;
            fraction = (case m3 of None \<Rightarrow> ''0'' | Some f \<Rightarrow> f);
            millis = Number (padEnd3 fraction)
        in minutes * 60000 + seconds * 1000 + millis)"

lemma literal_Some: "literal c s = Some rest \<longleftrightarrow> s = c # rest"
  by (auto simp add: literal_def split: list.splits)

lemma firstMatch_Some:
  "firstMatch f xs = Some y \<Longrightarrow> \<exists>x\<in>set xs. f x = Some y"
  by (induction xs) (auto split: option.splits)

lemma digitRuns_mem:
  assumes "(d, r) \<in> set (digitRuns lo hi s)"
  shows "s = d @ r \<and> lo \<le> length d \<and> length d \<le> hi \<and> (\<forall>c\<in>set d. isDigit c)"
proof -
  define n where "n = length (takeWhile isDigit (take hi s))"
  from assms obtain k where k: "lo \<le> k" "k \<le> n" "d = take k s" "r = drop k s"
    by (auto simp add: digitRuns_def Let_def n_def)
  have n: "n \<le> hi" "n \<le> length s"
    using length_takeWhile_le [of isDigit "take hi s"] by (simp_all add: n_def)
  have "take k s = take k (takeWhile isDigit (take hi s))"
  proof -
    have "take hi s = takeWhile isDigit (take hi s) @ dropWhile isDigit (take hi s)" by simp
    then have "take k (take hi s) = take k (takeWhile isDigit (take hi s))"
      using k(2) by (metis n_def take_append diff_is_0_eq take_0 append_Nil2)
    moreover have "take k (take hi s) = take k s" using k(2) n(1) by (simp add: min_def)
    ultimately show ?thesis by simp
  qed
  then have "set d \<subseteq> set (takeWhile isDigit (take hi s))"
    using k(3) by (metis set_take_subset)
  then have "\<forall>c\<in>set d. isDigit c" by (auto dest: set_takeWhileD)
  moreover have "length d = k" using k n by simp
  ultimately show ?thesis using k n by simp
qed

lemma fractionAlternatives_mem:
  assumes "(f, r) \<in> set (fractionAlternatives s)"
  shows "s = (case f of None \<Rightarrow> [] | Some d \<Rightarrow> CHR ''.'' # d) @ r
       \<and> (case f of None \<Rightarrow> True
           | Some d \<Rightarrow> 1 \<le> length d \<and> length d \<le> 3 \<and> (\<forall>c\<in>set d. isDigit c))"
proof (cases "literal CHR ''.'' s")
  case None
  with assms show ?thesis by (simp add: fractionAlternatives_def)
next
  case (Some t)
  then have s: "s = CHR ''.'' # t" by (simp add: literal_Some)
  from assms Some consider (skip) "f = None" "r = s"
    | (group) d where "f = Some d" "(d, r) \<in> set (digitRuns 1 3 t)"
    by (auto simp add: fractionAlternatives_def)
  then show ?thesis
  proof cases
    case skip
    then show ?thesis by simp
  next
    case group
    from digitRuns_mem [OF group(2)] group(1) s show ?thesis by simp
  qed
qed

text \<open>What a match consists of.\<close>

definition timestampShape :: "string \<Rightarrow> string \<Rightarrow> string option \<Rightarrow> bool" where
  "timestampShape minutes seconds fraction \<longleftrightarrow>
     1 \<le> length minutes \<and> length minutes \<le> 2 \<and> (\<forall>c\<in>set minutes. isDigit c) \<and>
     length seconds = 2 \<and> (\<forall>c\<in>set seconds. isDigit c) \<and>
     (case fraction of
        None \<Rightarrow> True
      | Some d \<Rightarrow> 1 \<le> length d \<and> length d \<le> 3 \<and> (\<forall>c\<in>set d. isDigit c))"

definition timestampSource :: "string \<Rightarrow> string \<Rightarrow> string option \<Rightarrow> string" where
  "timestampSource minutes seconds fraction =
     ''['' @ minutes @ '':'' @ seconds
       @ (case fraction of None \<Rightarrow> [] | Some d \<Rightarrow> CHR ''.'' # d) @ '']''"

lemma matchTimestamp_sound:
  assumes "matchTimestamp s = Some (m1, m2, m3, rest)"
  shows "s = timestampSource m1 m2 m3 @ rest \<and> timestampShape m1 m2 m3"
proof -
  from assms obtain s1 where s1: "s = CHR ''['' # s1"
    and r1: "firstMatch matchMinutes (digitRuns 1 2 s1) = Some (m1, m2, m3, rest)"
    by (auto simp add: matchTimestamp_def literal_Some split: option.splits)
  from firstMatch_Some [OF r1] obtain a s2 where a: "(a, s2) \<in> set (digitRuns 1 2 s1)"
    and r2: "matchMinutes (a, s2) = Some (m1, m2, m3, rest)" by auto
  from r2 obtain s3 where s3: "s2 = CHR '':'' # s3"
    and r3: "firstMatch (matchSeconds a) (digitRuns 2 2 s3) = Some (m1, m2, m3, rest)"
    by (auto simp add: literal_Some split: option.splits)
  from firstMatch_Some [OF r3] obtain b s4 where b: "(b, s4) \<in> set (digitRuns 2 2 s3)"
    and r4: "matchSeconds a (b, s4) = Some (m1, m2, m3, rest)" by auto
  from r4 have "firstMatch (matchClose a b) (fractionAlternatives s4) = Some (m1, m2, m3, rest)"
    by simp
  from firstMatch_Some [OF this] obtain f s5 where f: "(f, s5) \<in> set (fractionAlternatives s4)"
    and r5: "matchClose a b (f, s5) = Some (m1, m2, m3, rest)" by auto
  from r5 have e: "a = m1" "b = m2" "f = m3" "s5 = CHR '']'' # rest"
    by (auto simp add: literal_Some split: option.splits)
  from digitRuns_mem [OF a] digitRuns_mem [OF b] fractionAlternatives_mem [OF f] s1 s3 e
  show ?thesis
    by (simp add: timestampSource_def timestampShape_def)
qed

lemma timestampSource_length: "0 < length (timestampSource m1 m2 m3)"
  by (simp add: timestampSource_def)

lemma matchTimestamp_shorter:
  assumes "matchTimestamp s = Some (m1, m2, m3, rest)"
  shows "length rest < length s"
  using matchTimestamp_sound [OF assms] timestampSource_length [of m1 m2 m3] by simp

text \<open>
  The \<open>exec\<close> loop with the global flag: the matches of a line from left to right, each
  search starting where the last match ended.
\<close>

function execAll :: "string \<Rightarrow> (string \<times> string \<times> string option) list" where
  "execAll [] = []"
| "execAll (c # cs) =
     (case matchTimestamp (c # cs) of
        Some (m1, m2, m3, rest) \<Rightarrow> (m1, m2, m3) # execAll rest
      | None \<Rightarrow> execAll cs)"
  by pat_completeness auto
termination
  by (relation "measure length") (auto dest: matchTimestamp_shorter)

text \<open>\<open>line.replace(TIMESTAMP_REGEX, "")\<close>: the line without its matches.\<close>

function removeTimestamps :: "string \<Rightarrow> string" where
  "removeTimestamps [] = []"
| "removeTimestamps (c # cs) =
     (case matchTimestamp (c # cs) of
        Some (m1, m2, m3, rest) \<Rightarrow> removeTimestamps rest
      | None \<Rightarrow> c # removeTimestamps cs)"
  by pat_completeness auto
termination
  by (relation "measure length") (auto dest: matchTimestamp_shorter)

text \<open>\<open>text.split(/\r?\n/)\<close>.\<close>

fun splitLines :: "string \<Rightarrow> string list" where
  "splitLines [] = [[]]"
| "splitLines (c # cs) =
     (if c = CHR 0x0D \<and> cs \<noteq> [] \<and> hd cs = CHR 0x0A then [] # splitLines (tl cs)
      else if c = CHR 0x0A then [] # splitLines cs
      else (case splitLines cs of [] \<Rightarrow> [[c]] | l # ls \<Rightarrow> (c # l) # ls))"

text \<open>
  The body of the loop over the lines: the entries one line contributes.
  \<^verbatim>\<open>if (timestamps.length === 0) { continue; }
  const lyricText = line.replace(TIMESTAMP_REGEX, "").trim();
  for (const timeMs of timestamps) { parsed.push({ timeMs, text: lyricText || "..." }); }\<close>
\<close>

definition parseLine :: "string \<Rightarrow> LyricLine list" where
  "parseLine line =
     (let timestamps = map parseTimestampMs (execAll line) in
      if length timestamps = 0 then []
      else
        (let lyricText = trim (removeTimestamps line) in
         map (\<lambda>t. \<lparr> timeMs = t, lineText = (if lyricText = [] then ''...'' else lyricText) \<rparr>)
           timestamps))"

text \<open>The array \<open>parsed\<close> before it is sorted: the entries in emission order.\<close>

definition emittedLines :: "string \<Rightarrow> LyricLine list" where
  "emittedLines text = concat (map parseLine (splitLines text))"

text \<open>
  \<open>Array.prototype.sort\<close> belongs to the engine, not to the player.  ECMAScript requires
  it to be stable and to order by the sign of the comparator; the model is the stable
  insertion sort by a comparator.
\<close>

fun insertBy :: "('a \<Rightarrow> 'a \<Rightarrow> int) \<Rightarrow> 'a \<Rightarrow> 'a list \<Rightarrow> 'a list" where
  "insertBy cmp x [] = [x]"
| "insertBy cmp x (y # ys) = (if cmp x y \<le> 0 then x # y # ys else y # insertBy cmp x ys)"

definition sortBy :: "('a \<Rightarrow> 'a \<Rightarrow> int) \<Rightarrow> 'a list \<Rightarrow> 'a list" where
  "sortBy cmp xs = foldr (insertBy cmp) xs []"

text \<open>\<^verbatim>\<open>return parsed.sort((a, b) => a.timeMs - b.timeMs);\<close>\<close>

definition parseLrc :: "string \<Rightarrow> LyricLine list" where
  "parseLrc text = sortBy (\<lambda>a b. timeMs a - timeMs b) (emittedLines text)"

section \<open>Properties of double arithmetic\<close>

lemma binadeBelow_numeral [simp]:
  "binadeBelow (numeral n) x =
     (if 1 \<le> 2 * x then - 1 else binadeBelow (pred_numeral n) (2 * x) - 1)"
  by (simp add: numeral_eq_Suc)

lemma binadeAbove_numeral [simp]:
  "binadeAbove (numeral n) x = (if x < 2 then 0 else binadeAbove (pred_numeral n) (x / 2) + 1)"
  by (simp add: numeral_eq_Suc)

lemmas fl_defs = fl_def ulp_def binade_def roundTiesToEven_def Let_def fadd_def fsub_def
  fmul_def fdiv_def

lemma fl_constants:
  "fl (1 / 10) = 3602879701896397 / 2 ^ 55"
  "fl (9 / 10) = 8106479329266893 / 2 ^ 53"
  "fl (3 / 10) = 5404319552844595 / 2 ^ 54"
  "fsub 1 (fl (1 / 10)) = fl (9 / 10)"
  by (simp_all add: fl_defs)

lemma ulp_pos: "0 < ulp x"
  by (simp add: ulp_def)

lemma binadeBelow_nonpos: "binadeBelow k x \<le> 0"
proof (induction k arbitrary: x)
  case 0
  show ?case by simp
next
  case (Suc k)
  from Suc [of "2 * x"] show ?case by simp
qed

lemma binadeBelow_neg: "0 < k \<Longrightarrow> binadeBelow k x \<le> - 1"
  using binadeBelow_nonpos [of "k - 1" "2 * x"] by (cases k) auto

lemma ulp_small:
  assumes "\<bar>x\<bar> < 1"
  shows "ulp x \<le> 1 / 2 ^ 53"
proof -
  have "binade \<bar>x\<bar> \<le> - 1"
    using assms binadeBelow_neg [of 1022 "\<bar>x\<bar>"] by (simp add: binade_def)
  then have "binade \<bar>x\<bar> - 52 \<le> - 53" by simp
  then have "(2::real) powi (binade \<bar>x\<bar> - 52) \<le> 2 powi (- 53)"
    by (intro power_int_increasing) simp_all
  then show ?thesis by (simp add: ulp_def power_int_minus field_simps)
qed

lemma roundTiesToEven_error: "\<bar>of_int (roundTiesToEven y) - y\<bar> \<le> 1 / 2"
proof -
  have "of_int \<lfloor>y\<rfloor> \<le> y" "y < of_int \<lfloor>y\<rfloor> + 1" by linarith+
  then show ?thesis
    by (auto simp add: roundTiesToEven_def Let_def abs_le_iff)
qed

lemma roundTiesToEven_nonneg: "0 \<le> y \<Longrightarrow> 0 \<le> roundTiesToEven y"
  by (auto simp add: roundTiesToEven_def Let_def intro: order_trans)

lemma fl_nonneg: "0 \<le> x \<Longrightarrow> 0 \<le> fl x"
proof (cases "x = 0")
  case True
  then show ?thesis by (simp add: fl_def)
next
  case False
  assume "0 \<le> x"
  with False have "0 < x" by simp
  then have "0 \<le> \<bar>x\<bar> / ulp x" using ulp_pos [of x] by simp
  then have "0 \<le> roundTiesToEven (\<bar>x\<bar> / ulp x)" by (rule roundTiesToEven_nonneg)
  with \<open>0 < x\<close> ulp_pos [of x] show ?thesis by (simp add: fl_def)
qed

lemma fl_error:
  assumes "0 \<le> x" and "x < 1"
  shows "\<bar>fl x - x\<bar> \<le> 1 / 2 ^ 54"
proof (cases "x = 0")
  case True
  then show ?thesis by (simp add: fl_def)
next
  case False
  with assms have pos: "0 < x" by simp
  define u where "u = ulp x"
  define r where "r = real_of_int (roundTiesToEven (x / u))"
  have u: "0 < u" "u \<le> 1 / 2 ^ 53"
    using ulp_pos [of x] ulp_small [of x] assms by (simp_all add: u_def)
  have "fl x = r * u" using pos by (simp add: fl_def u_def r_def)
  then have "fl x - x = (r - x / u) * u" using u(1) by (simp add: field_simps)
  then have "\<bar>fl x - x\<bar> = \<bar>r - x / u\<bar> * u" using u(1) by (simp add: abs_mult)
  also have "\<dots> \<le> (1 / 2) * u"
    using roundTiesToEven_error [of "x / u"] u(1) unfolding r_def
    by (intro mult_right_mono) simp_all
  also have "\<dots> \<le> (1 / 2) * (1 / 2 ^ 53)" using u(2) by simp
  finally show ?thesis by simp
qed

section \<open>Properties of the scroll profile\<close>

lemma upper_dwell: "fsub 1 MIN_SCROLL_PORTION = fl (9 / 10)"
  unfolding MIN_SCROLL_PORTION_def by (rule fl_constants(4))

lemma clamped_sum_bound:
  assumes "0 \<le> clamped" and "clamped \<le> fl (9 / 10)"
  shows "clamped + max 0 (fsub (fsub 1 MIN_SCROLL_PORTION) clamped) \<le> fl (9 / 10) + 1 / 2 ^ 54"
proof -
  define x where "x = fl (9 / 10) - clamped"
  have "fl (9 / 10) < 1" by (simp add: fl_constants)
  with assms have x: "0 \<le> x" "x < 1" by (simp_all add: x_def)
  from fl_error [OF x] have "fl x - x \<le> 1 / 2 ^ 54" by (rule abs_le_D1)
  then have "fl x \<le> x + 1 / 2 ^ 54" by linarith
  then have "clamped + fl x \<le> fl (9 / 10) + 1 / 2 ^ 54" by (simp add: x_def)
  moreover have "clamped + 0 \<le> fl (9 / 10) + 1 / 2 ^ 54" using assms(2) by simp
  moreover have "fsub (fsub 1 MIN_SCROLL_PORTION) clamped = fl x"
    unfolding upper_dwell by (simp only: fsub_def x_def)
  ultimately show ?thesis
    by (simp add: max_def)
qed

lemma clamp_range: "0 \<le> min (fl (9 / 10)) (max 0 v) \<and> min (fl (9 / 10)) (max 0 v) \<le> fl (9 / 10)"
  by (simp add: fl_constants)

lemma handleScrollDwellStartChange_inv:
  assumes "0 \<le> scrollDwellEnd s" and "scrollDwellEnd s \<le> fl (9 / 10)"
  shows "dwellInvariant (handleScrollDwellStartChange v s)"
proof -
  define clamped where "clamped = min (fl (9 / 10)) (max 0 v)"
  define other where "other = min (scrollDwellEnd s) (max 0 (fsub (fsub 1 MIN_SCROLL_PORTION) clamped))"
  have c: "0 \<le> clamped" "clamped \<le> fl (9 / 10)"
    using clamp_range [of v] by (simp_all add: clamped_def)
  have o: "0 \<le> other" "other \<le> fl (9 / 10)"
    "other \<le> max 0 (fsub (fsub 1 MIN_SCROLL_PORTION) clamped)"
    using assms by (simp_all add: other_def)
  from clamped_sum_bound [OF c] o(3) have "clamped + other \<le> fl (9 / 10) + 1 / 2 ^ 54"
    by linarith
  moreover have "handleScrollDwellStartChange v s =
      \<lparr> scrollDwellStart = clamped, scrollDwellEnd = other \<rparr>"
    by (simp add: handleScrollDwellStartChange_def clamped_def other_def Let_def)
  ultimately show ?thesis using c o(1,2) by (simp add: dwellInvariant_def)
qed

lemma handleScrollDwellEndChange_inv:
  assumes "0 \<le> scrollDwellStart s" and "scrollDwellStart s \<le> fl (9 / 10)"
  shows "dwellInvariant (handleScrollDwellEndChange v s)"
proof -
  define clamped where "clamped = min (fl (9 / 10)) (max 0 v)"
  define other where "other = min (scrollDwellStart s) (max 0 (fsub (fsub 1 MIN_SCROLL_PORTION) clamped))"
  have c: "0 \<le> clamped" "clamped \<le> fl (9 / 10)"
    using clamp_range [of v] by (simp_all add: clamped_def)
  have o: "0 \<le> other" "other \<le> fl (9 / 10)"
    "other \<le> max 0 (fsub (fsub 1 MIN_SCROLL_PORTION) clamped)"
    using assms by (simp_all add: other_def)
  from clamped_sum_bound [OF c] o(3) have "clamped + other \<le> fl (9 / 10) + 1 / 2 ^ 54"
    by linarith
  moreover have "handleScrollDwellEndChange v s =
      \<lparr> scrollDwellStart = other, scrollDwellEnd = clamped \<rparr>"
    by (simp add: handleScrollDwellEndChange_def clamped_def other_def Let_def)
  ultimately show ?thesis using c o(1,2) by (simp add: dwellInvariant_def)
qed

lemma applyDwellUpdate_inv:
  assumes "dwellInvariant s"
  shows "dwellInvariant (applyDwellUpdate s u)"
proof (cases u)
  case (SetDwellStart v)
  from assms have "0 \<le> scrollDwellEnd s" "scrollDwellEnd s \<le> fl (9 / 10)"
    by (simp_all add: dwellInvariant_def)
  with SetDwellStart show ?thesis by (simp add: handleScrollDwellStartChange_inv)
next
  case (SetDwellEnd v)
  from assms have "0 \<le> scrollDwellStart s" "scrollDwellStart s \<le> fl (9 / 10)"
    by (simp_all add: dwellInvariant_def)
  with SetDwellEnd show ?thesis by (simp add: handleScrollDwellEndChange_inv)
qed

lemma applyDwellUpdates_inv:
  "dwellInvariant s \<Longrightarrow> dwellInvariant (applyDwellUpdates s us)"
  unfolding applyDwellUpdates_def
  by (induction us arbitrary: s) (simp_all add: applyDwellUpdate_inv)

lemma dwell_constants:
  "0 \<le> fl (9 / 10)" "0 \<le> fl (3 / 10)" "fl (3 / 10) \<le> fl (9 / 10)"
  "fsub (fl (9 / 10)) (fl (9 / 10)) = 0"
  "fsub (fl (9 / 10)) (fl (3 / 10)) = 5404319552844596 / 2 ^ 53"
  "(5404319552844596 / 2 ^ 53 :: real) \<le> fl (9 / 10)"
  "fl (3 / 10) = 5404319552844595 / 2 ^ 54"
  by (simp_all add: fl_defs)

lemma dwell_overshoot_run:
  "applyDwellUpdates \<lparr> scrollDwellStart = 1 / 4, scrollDwellEnd = 1 / 4 \<rparr>
        [SetDwellEnd (fl (9 / 10)), SetDwellStart (fl (3 / 10))]
      = \<lparr> scrollDwellStart = 5404319552844595 / 2 ^ 54,
          scrollDwellEnd = 5404319552844596 / 2 ^ 53 \<rparr>"
proof -
  have e: "handleScrollDwellEndChange (fl (9 / 10))
        \<lparr> scrollDwellStart = 1 / 4, scrollDwellEnd = 1 / 4 \<rparr>
      = \<lparr> scrollDwellStart = 0, scrollDwellEnd = fl (9 / 10) \<rparr>"
    by (simp add: handleScrollDwellEndChange_def Let_def upper_dwell dwell_constants(1,4))
  have "min (fl (9 / 10)) (max 0 (fl (3 / 10))) = fl (3 / 10)"
    using dwell_constants(2,3) by simp
  then have "handleScrollDwellStartChange (fl (3 / 10))
        \<lparr> scrollDwellStart = 0, scrollDwellEnd = fl (9 / 10) \<rparr>
      = \<lparr> scrollDwellStart = fl (3 / 10), scrollDwellEnd = 5404319552844596 / 2 ^ 53 \<rparr>"
    using dwell_constants(6)
    by (simp add: handleScrollDwellStartChange_def Let_def upper_dwell dwell_constants(5))
  with e show ?thesis
    by (simp add: applyDwellUpdates_def dwell_constants(7))
qed

lemma default_profile_inv:
  "statedDwellInvariant \<lparr> scrollDwellStart = 1 / 4, scrollDwellEnd = 1 / 4 \<rparr>"
  "dwellInvariant \<lparr> scrollDwellStart = 1 / 4, scrollDwellEnd = 1 / 4 \<rparr>"
  by (simp_all add: statedDwellInvariant_def dwellInvariant_def fl_constants)

text \<open>
  Claim C8, as the code has it.  Starting from a profile within the same bounds, any
  sequence of dwell-start and dwell-end updates through the two handlers ends in a profile
  with both fractions in \<open>[0, 0.9]\<close> and with \<open>dwellStart + dwellEnd\<close> at most the
  double \<open>0.9\<close> plus \<open>2^-54\<close>, which is less than \<open>0.9 + 2^-53\<close>: the bound \<open>0.9\<close>
  holds up to the rounding of the one subtraction \<open>1 - MIN_SCROLL_PORTION - clamped\<close>.
\<close>

theorem dwell_invariant_preserved:
  assumes "dwellInvariant s"
  shows "scrollDwellStart (applyDwellUpdates s us) + scrollDwellEnd (applyDwellUpdates s us)
           \<le> fl (9 / 10) + 1 / 2 ^ 54
       \<and> scrollDwellStart (applyDwellUpdates s us) + scrollDwellEnd (applyDwellUpdates s us)
           < 9 / 10 + 1 / 2 ^ 53
       \<and> 0 \<le> scrollDwellStart (applyDwellUpdates s us)
       \<and> scrollDwellStart (applyDwellUpdates s us) \<le> fl (9 / 10)
       \<and> 0 \<le> scrollDwellEnd (applyDwellUpdates s us)
       \<and> scrollDwellEnd (applyDwellUpdates s us) \<le> fl (9 / 10)"
proof -
  have "fl (9 / 10) + 1 / 2 ^ 54 < (9 / 10 + 1 / 2 ^ 53 :: real)"
    by (simp add: fl_constants)
  with applyDwellUpdates_inv [OF assms, of us] show ?thesis
    by (simp add: dwellInvariant_def)
qed

theorem dwell_invariant_preserved_witness:
  "dwellInvariant \<lparr> scrollDwellStart = 1 / 4, scrollDwellEnd = 1 / 4 \<rparr>
   \<and> applyDwellUpdates \<lparr> scrollDwellStart = 1 / 4, scrollDwellEnd = 1 / 4 \<rparr>
        [SetDwellEnd (fl (9 / 10)), SetDwellStart (fl (3 / 10))]
      = \<lparr> scrollDwellStart = 5404319552844595 / 2 ^ 54,
          scrollDwellEnd = 5404319552844596 / 2 ^ 53 \<rparr>
   \<and> (5404319552844595 / 2 ^ 54 + 5404319552844596 / 2 ^ 53 :: real) \<le> fl (9 / 10) + 1 / 2 ^ 54
   \<and> (5404319552844595 / 2 ^ 54 + 5404319552844596 / 2 ^ 53 :: real) < 9 / 10 + 1 / 2 ^ 53"
proof -
  note inst = dwell_invariant_preserved [OF default_profile_inv(2),
      of "[SetDwellEnd (fl (9 / 10)), SetDwellStart (fl (3 / 10))]"]
  from inst have
    "(5404319552844595 / 2 ^ 54 + 5404319552844596 / 2 ^ 53 :: real) \<le> fl (9 / 10) + 1 / 2 ^ 54"
    "(5404319552844595 / 2 ^ 54 + 5404319552844596 / 2 ^ 53 :: real) < 9 / 10 + 1 / 2 ^ 53"
    by (simp_all only: dwell_overshoot_run ScrollProfile.simps)
  with default_profile_inv(2) dwell_overshoot_run show ?thesis by (intro conjI)
qed

theorem dwell_sum_exceeds_counterexample:
  "statedDwellInvariant \<lparr> scrollDwellStart = 1 / 4, scrollDwellEnd = 1 / 4 \<rparr>
   \<and> applyDwellUpdates \<lparr> scrollDwellStart = 1 / 4, scrollDwellEnd = 1 / 4 \<rparr>
        [SetDwellEnd (fl (9 / 10)), SetDwellStart (fl (3 / 10))]
      = \<lparr> scrollDwellStart = 5404319552844595 / 2 ^ 54,
          scrollDwellEnd = 5404319552844596 / 2 ^ 53 \<rparr>
   \<and> (9 / 10 :: real) < 5404319552844595 / 2 ^ 54 + 5404319552844596 / 2 ^ 53
   \<and> fl (9 / 10) < 5404319552844595 / 2 ^ 54 + 5404319552844596 / 2 ^ 53
   \<and> \<not> statedDwellInvariant
        (applyDwellUpdates \<lparr> scrollDwellStart = 1 / 4, scrollDwellEnd = 1 / 4 \<rparr>
          [SetDwellEnd (fl (9 / 10)), SetDwellStart (fl (3 / 10))])"
proof -
  have a: "(9 / 10 :: real) < 5404319552844595 / 2 ^ 54 + 5404319552844596 / 2 ^ 53"
    by simp
  have b: "fl (9 / 10) < 5404319552844595 / 2 ^ 54 + 5404319552844596 / 2 ^ 53"
    by (simp add: fl_constants)
  from b have c: "\<not> statedDwellInvariant
        (applyDwellUpdates \<lparr> scrollDwellStart = 1 / 4, scrollDwellEnd = 1 / 4 \<rparr>
          [SetDwellEnd (fl (9 / 10)), SetDwellStart (fl (3 / 10))])"
    unfolding dwell_overshoot_run by (simp add: statedDwellInvariant_def)
  from default_profile_inv(1) dwell_overshoot_run a b c show ?thesis by (intro conjI)
qed

section \<open>Properties of the scroll progress calculator\<close>

lemma fl_sign:
  "0 \<le> x \<Longrightarrow> 0 \<le> y \<Longrightarrow> 0 \<le> fdiv x y"
  "0 \<le> x \<Longrightarrow> 0 \<le> y \<Longrightarrow> 0 \<le> fmul x y"
  "y \<le> x \<Longrightarrow> 0 \<le> fsub x y"
  by (simp_all add: fdiv_def fmul_def fsub_def fl_nonneg)

lemma scrollProgress_nonneg: "0 \<le> scrollProgress ds de r"
proof -
  have "0 \<le> fdiv (fsub r ds) (fsub (scrollEnd ds de) ds)"
    if "\<not> r \<le> ds" and "\<not> scrollEnd ds de \<le> r"
    using that by (intro fl_sign) simp_all
  then show ?thesis
    by (simp add: scrollProgress_def Let_def)
qed

lemma currentWindowIndex_clamp:
  assumes "0 \<le> p"
  shows "currentWindowIndex n p =
           (if n \<le> 1 then 0 else max 0 (min (int n - 1) \<lfloor>fmul p (real n - 1)\<rfloor>))"
proof (cases "n \<le> 1")
  case True
  then show ?thesis by (simp add: currentWindowIndex_def)
next
  case False
  then have "0 \<le> fmul p (real n - 1)" using assms by (intro fl_sign) simp_all
  then have "0 \<le> \<lfloor>fmul p (real n - 1)\<rfloor>" by simp
  with False show ?thesis by (simp add: currentWindowIndex_def)
qed

lemma currentWindowIndex_range:
  assumes "0 \<le> p" and "0 < n"
  shows "0 \<le> currentWindowIndex n p \<and> currentWindowIndex n p \<le> int n - 1"
  using assms by (simp add: currentWindowIndex_clamp min_less_iff_disj)

text \<open>The double operations that the examples run through.\<close>

lemma scroll_arith:
  "fsub 1 (1 / 4) = 3 / 4" "fsub (3 / 4) (1 / 4) = 1 / 2" "fadd (1 / 4) (1 / 2) = 3 / 4"
  "fsub 500 0 = 500" "fsub 2000 0 = 2000" "fsub 3800 0 = 3800" "fsub 4000 0 = 4000"
  "fdiv 500 4000 = 1 / 8" "fdiv 2000 4000 = 1 / 2" "fdiv 3800 4000 = 8556839292003942 / 2 ^ 53"
  "fsub (1 / 2) (1 / 4) = 1 / 4" "fdiv (1 / 4) (1 / 2) = 1 / 2"
  "fmul 0 2 = 0" "fmul (1 / 2) 2 = 1" "fmul 1 2 = 2"
  "fsub 11000 10000 = 1000" "fsub 13000 10000 = 3000"
  "fdiv 1000 3000 = 6004799503160661 / 2 ^ 54"
  "fsub (6004799503160661 / 2 ^ 54) (1 / 4) = 1501199875790165 / 2 ^ 54"
  "fdiv (1501199875790165 / 2 ^ 54) (1 / 2) = 1501199875790165 / 2 ^ 53"
  "fmul (1501199875790165 / 2 ^ 53) 6 = 9007199254740990 / 2 ^ 53"
  by (simp_all add: fl_defs)

lemma quarter_profile:
  "scrollPortion (1 / 4) (1 / 4) = 1 / 2"
  "scrollEnd (1 / 4) (1 / 4) = 3 / 4"
proof -
  have "MIN_SCROLL_PORTION \<le> 1 / 2"
    by (simp add: MIN_SCROLL_PORTION_def fl_constants)
  then show p: "scrollPortion (1 / 4) (1 / 4) = 1 / 2"
    by (simp add: scrollPortion_def Let_def scroll_arith(1,2))
  have "(3 / 4 :: real) \<le> fl (9 / 10)"
    by (simp add: fl_constants)
  then show "scrollEnd (1 / 4) (1 / 4) = 3 / 4"
    by (simp add: scrollEnd_def p upper_dwell scroll_arith(3))
qed

lemma quarter_progress:
  "scrollProgress (1 / 4) (1 / 4) x =
     (if x \<le> 1 / 4 then 0 else if 3 / 4 \<le> x then 1 else fdiv (fsub x (1 / 4)) (1 / 2))"
  by (simp add: scrollProgress_def Let_def quarter_profile scroll_arith(2))

lemma example_progress:
  "normalizedLineProgress 0 4000 500 = 1 / 8"
  "normalizedLineProgress 0 4000 2000 = 1 / 2"
  "normalizedLineProgress 0 4000 3800 = 8556839292003942 / 2 ^ 53"
  "normalizedLineProgress 10000 13000 11000 = 6004799503160661 / 2 ^ 54"
  by (simp_all add: normalizedLineProgress_def lineDurationMs_def Let_def scroll_arith)

lemma example_mapped:
  "scrollProgress (1 / 4) (1 / 4) (1 / 8) = 0"
  "scrollProgress (1 / 4) (1 / 4) (1 / 2) = 1 / 2"
  "scrollProgress (1 / 4) (1 / 4) (8556839292003942 / 2 ^ 53) = 1"
  by (simp_all add: quarter_progress scroll_arith)

lemma third_mapped:
  "scrollProgress (1 / 4) (1 / 4) (6004799503160661 / 2 ^ 54) = 1501199875790165 / 2 ^ 53"
proof -
  have "\<not> (6004799503160661 / 2 ^ 54 :: real) \<le> 1 / 4"
    and "\<not> (3 / 4 :: real) \<le> 6004799503160661 / 2 ^ 54"
    by simp_all
  then show ?thesis
    by (simp only: quarter_progress if_False scroll_arith(19,20))
qed

lemma example_windows:
  "lyricWindowIndex 0 4000 500 (1 / 4) (1 / 4) 3 = 0"
  "lyricWindowIndex 0 4000 2000 (1 / 4) (1 / 4) 3 = 1"
  "lyricWindowIndex 0 4000 3800 (1 / 4) (1 / 4) 3 = 2"
  unfolding lyricWindowIndex_def example_progress example_mapped
  by (simp_all add: currentWindowIndex_def scroll_arith)

lemma third_window: "lyricWindowIndex 10000 13000 11000 (1 / 4) (1 / 4) 7 = 0"
proof -
  have "real (7::nat) - 1 = 6" by simp
  moreover have "\<lfloor>9007199254740990 / 2 ^ 53 :: real\<rfloor> = 0" by simp
  ultimately have "currentWindowIndex 7 (1501199875790165 / 2 ^ 53) = 0"
    unfolding currentWindowIndex_def by (simp only: scroll_arith(21)) simp
  then show ?thesis
    unfolding lyricWindowIndex_def example_progress third_mapped .
qed

lemma third_window_stated: "statedWindowIndex 10000 13000 11000 (1 / 4) (1 / 4) 7 = 1"
  by (simp add: statedWindowIndex_def)

text \<open>
  Claim C4, as the code has it.  Every operation of the calculation rounds to the nearest
  double.  Raw progress is \<open>(c - a) / max(300, b - a)\<close> clamped to \<open>[0,1]\<close>; with
  \<open>scrollPortion = max(0.1, 1 - dwellStart - dwellEnd)\<close> and
  \<open>scrollEnd = min(0.9, dwellStart + scrollPortion)\<close> the mapped progress is \<open>0\<close> for
  \<open>raw \<le> dwellStart\<close>, \<open>1\<close> for \<open>raw \<ge> scrollEnd\<close> and
  \<open>(raw - dwellStart) / (scrollEnd - dwellStart)\<close> between, never negative; the window
  index is \<open>0\<close> for at most one window and \<open>clamp(floor(mapped * (n - 1)), 0, n - 1)\<close>
  otherwise.  With both dwell fractions \<open>0.25\<close>, a line of 4000ms and three windows,
  elapsed 500ms, 2000ms and 3800ms select windows 0, 1 and 2.  The rounding can put the
  index one below the index of the exact quotient: a line from 10000ms to 13000ms played
  to 11000ms with seven windows selects window 0.
\<close>

theorem scroll_window_selection:
  "(let raw = min 1 (max 0 (fdiv (fsub c a) (max 300 (fsub b a))));
        sEnd = min (fl (9 / 10))
                 (fadd dwellStart (max (fl (1 / 10)) (fsub (fsub 1 dwellStart) dwellEnd)));
        mapped = (if raw \<le> dwellStart then 0 else if raw \<ge> sEnd then 1
                  else fdiv (fsub raw dwellStart) (fsub sEnd dwellStart))
    in normalizedLineProgress a b c = raw
     \<and> scrollProgress dwellStart dwellEnd (normalizedLineProgress a b c) = mapped
     \<and> 0 \<le> mapped
     \<and> lyricWindowIndex a b c dwellStart dwellEnd n =
           (if n \<le> 1 then 0 else max 0 (min (int n - 1) \<lfloor>fmul mapped (real n - 1)\<rfloor>)))
   \<and> lyricWindowIndex 0 4000 500 (1 / 4) (1 / 4) 3 = 0
   \<and> lyricWindowIndex 0 4000 2000 (1 / 4) (1 / 4) 3 = 1
   \<and> lyricWindowIndex 0 4000 3800 (1 / 4) (1 / 4) 3 = 2
   \<and> lyricWindowIndex 10000 13000 11000 (1 / 4) (1 / 4) 7 = 0"
proof -
  define raw where "raw = min 1 (max 0 (fdiv (fsub c a) (max 300 (fsub b a))))"
  define sEnd where "sEnd = min (fl (9 / 10))
                 (fadd dwellStart (max (fl (1 / 10)) (fsub (fsub 1 dwellStart) dwellEnd)))"
  define mapped where "mapped = (if raw \<le> dwellStart then 0 else if raw \<ge> sEnd then 1
                  else fdiv (fsub raw dwellStart) (fsub sEnd dwellStart))"
  have r: "normalizedLineProgress a b c = raw"
    by (simp add: normalizedLineProgress_def lineDurationMs_def raw_def Let_def)
  have e: "scrollEnd dwellStart dwellEnd = sEnd"
    unfolding scrollEnd_def upper_dwell
    by (simp add: scrollPortion_def MIN_SCROLL_PORTION_def sEnd_def Let_def)
  have m: "scrollProgress dwellStart dwellEnd raw = mapped"
    by (simp add: scrollProgress_def e mapped_def Let_def)
  have m': "scrollProgress dwellStart dwellEnd (normalizedLineProgress a b c) = mapped"
    using r m by simp
  have p: "0 \<le> mapped"
    using scrollProgress_nonneg [of dwellStart dwellEnd raw] m by simp
  then have w: "lyricWindowIndex a b c dwellStart dwellEnd n =
           (if n \<le> 1 then 0 else max 0 (min (int n - 1) \<lfloor>fmul mapped (real n - 1)\<rfloor>))"
    unfolding lyricWindowIndex_def r m by (rule currentWindowIndex_clamp)
  note general = r [unfolded raw_def] m' [unfolded mapped_def sEnd_def raw_def]
    p [unfolded mapped_def sEnd_def raw_def] w [unfolded mapped_def sEnd_def raw_def]
  show ?thesis
    unfolding Let_def by (intro conjI) (rule general example_windows third_window)+
qed

theorem scroll_window_rounding_counterexample:
  "lyricWindowIndex 10000 13000 11000 (1 / 4) (1 / 4) 7 = 0
   \<and> statedWindowIndex 10000 13000 11000 (1 / 4) (1 / 4) 7 = 1"
  using third_window third_window_stated by (intro conjI)

section \<open>Properties of the active-line resolver\<close>

lemma activeLyricIndex_loop_correct:
  assumes "sorted (map timeMs lines)"
    and "0 \<le> left" and "right < int (length lines)" and "left \<le> right + 1"
    and "\<forall>i<length lines. int i < left \<longrightarrow> real_of_int (timeMs (lines ! i)) \<le> t"
    and "\<forall>i<length lines. right < int i \<longrightarrow> t < real_of_int (timeMs (lines ! i))"
    and "answer = left - 1"
  shows "\<exists>r. activeLyricIndex_loop lines t left right answer = Inr r \<and> - 1 \<le> r \<and> r < int (length lines)
           \<and> (\<forall>i<length lines. int i \<le> r \<longrightarrow> real_of_int (timeMs (lines ! i)) \<le> t)
           \<and> (\<forall>i<length lines. r < int i \<longrightarrow> t < real_of_int (timeMs (lines ! i)))"
  using assms
proof (induction lines t left right answer rule: activeLyricIndex_loop.induct)
  case (1 lines currentMs left right answer)
  show ?case
  proof (cases "left \<le> right")
    case False
    with "1.prems" have "right = left - 1" by simp
    with False "1.prems" show ?thesis
      by (subst activeLyricIndex_loop.simps) auto
  next
    case True
    define mid where "mid = (left + right) div 2"
    have mid: "left \<le> mid" "mid \<le> right" using True by (auto simp: mid_def)
    with "1.prems" have inr: "\<not> (mid < 0 \<or> int (length lines) \<le> mid)" by auto
    have srt: "\<And>i j. i \<le> j \<Longrightarrow> j < length lines \<Longrightarrow> timeMs (lines ! i) \<le> timeMs (lines ! j)"
      using "1.prems"(1) by (simp add: sorted_iff_nth_mono)
    show ?thesis
    proof (cases "real_of_int (timeMs (lines ! nat mid)) \<le> currentMs")
      case le: True
      have low: "\<forall>i<length lines. int i < mid + 1 \<longrightarrow> real_of_int (timeMs (lines ! i)) \<le> currentMs"
      proof (intro allI impI)
        fix i assume "i < length lines" "int i < mid + 1"
        then have "timeMs (lines ! i) \<le> timeMs (lines ! nat mid)"
          using inr by (intro srt) auto
        with le show "real_of_int (timeMs (lines ! i)) \<le> currentMs" by linarith
      qed
      have "\<exists>r. activeLyricIndex_loop lines currentMs (mid + 1) right mid = Inr r \<and> - 1 \<le> r \<and> r < int (length lines)
           \<and> (\<forall>i<length lines. int i \<le> r \<longrightarrow> real_of_int (timeMs (lines ! i)) \<le> currentMs)
           \<and> (\<forall>i<length lines. r < int i \<longrightarrow> currentMs < real_of_int (timeMs (lines ! i)))"
        using "1.prems" mid low
        by (intro "1.IH"(1) [OF True mid_def inr le]) auto
      then show ?thesis
        using True inr le by (subst activeLyricIndex_loop.simps) (simp add: mid_def [symmetric] Let_def)
    next
      case gt: False
      have high: "\<forall>i<length lines. mid - 1 < int i \<longrightarrow> currentMs < real_of_int (timeMs (lines ! i))"
      proof (intro allI impI)
        fix i assume "i < length lines" "mid - 1 < int i"
        then have "timeMs (lines ! nat mid) \<le> timeMs (lines ! i)"
          using inr by (intro srt) auto
        with gt show "currentMs < real_of_int (timeMs (lines ! i))" by linarith
      qed
      have "\<exists>r. activeLyricIndex_loop lines currentMs left (mid - 1) answer = Inr r \<and> - 1 \<le> r \<and> r < int (length lines)
           \<and> (\<forall>i<length lines. int i \<le> r \<longrightarrow> real_of_int (timeMs (lines ! i)) \<le> currentMs)
           \<and> (\<forall>i<length lines. r < int i \<longrightarrow> currentMs < real_of_int (timeMs (lines ! i)))"
        using "1.prems" mid high
        by (intro "1.IH"(2) [OF True mid_def inr gt]) auto
      then show ?thesis
        using True inr gt by (subst activeLyricIndex_loop.simps) (simp add: mid_def [symmetric] Let_def)
    qed
  qed
qed

lemma activeLyricIndex_spec:
  assumes "sorted (map timeMs lines)"
  shows "\<exists>r. activeLyricIndex lines t = Inr r \<and> - 1 \<le> r \<and> r < int (length lines)
           \<and> (\<forall>i<length lines. int i \<le> r \<longrightarrow> real_of_int (timeMs (lines ! i)) \<le> t)
           \<and> (\<forall>i<length lines. r < int i \<longrightarrow> t < real_of_int (timeMs (lines ! i)))"
proof (cases "length lines = 0")
  case True
  then show ?thesis by (simp add: activeLyricIndex_def)
next
  case False
  then have "activeLyricIndex lines t = activeLyricIndex_loop lines t 0 (int (length lines) - 1) (- 1)"
    by (simp add: activeLyricIndex_def)
  moreover have "\<exists>r. activeLyricIndex_loop lines t 0 (int (length lines) - 1) (- 1) = Inr r \<and> - 1 \<le> r \<and> r < int (length lines)
           \<and> (\<forall>i<length lines. int i \<le> r \<longrightarrow> real_of_int (timeMs (lines ! i)) \<le> t)
           \<and> (\<forall>i<length lines. r < int i \<longrightarrow> t < real_of_int (timeMs (lines ! i)))"
    using assms by (intro activeLyricIndex_loop_correct) auto
  ultimately show ?thesis by simp
qed

text \<open>
  Claim C2.  On a timeline sorted ascending by \<open>timeMs\<close>, \<open>activeLyricIndex\<close> returns
  (never throws) \<open>-1\<close> when no entry has \<open>timeMs \<le> t\<close>, in particular on the empty
  timeline, and otherwise the greatest index \<open>i\<close> with \<open>timeMs \<le> t\<close>.  When some entry
  has \<open>timeMs = t\<close> the selected entry has \<open>timeMs = t\<close> too: the line at the boundary is
  taken, not the one before it.
\<close>

theorem activeLyricIndex_greatest:
  assumes "sorted (map timeMs lines)"
  shows "activeLyricIndex [] t = Inr (- 1)
     \<and> ((\<forall>i<length lines. t < real_of_int (timeMs (lines ! i))) \<longrightarrow> activeLyricIndex lines t = Inr (- 1))
     \<and> ((\<exists>i<length lines. real_of_int (timeMs (lines ! i)) \<le> t) \<longrightarrow>
          (\<exists>i<length lines. activeLyricIndex lines t = Inr (int i)
              \<and> real_of_int (timeMs (lines ! i)) \<le> t
              \<and> (\<forall>j<length lines. real_of_int (timeMs (lines ! j)) \<le> t \<longrightarrow> j \<le> i)))
     \<and> ((\<exists>i<length lines. real_of_int (timeMs (lines ! i)) = t) \<longrightarrow>
          (\<exists>i<length lines. activeLyricIndex lines t = Inr (int i)
              \<and> real_of_int (timeMs (lines ! i)) = t))"
proof -
  from activeLyricIndex_spec [OF assms, of t] obtain r where
    r: "activeLyricIndex lines t = Inr r" "- 1 \<le> r" "r < int (length lines)"
    and le: "\<And>i. i < length lines \<Longrightarrow> int i \<le> r \<Longrightarrow> real_of_int (timeMs (lines ! i)) \<le> t"
    and gt: "\<And>i. i < length lines \<Longrightarrow> r < int i \<Longrightarrow> t < real_of_int (timeMs (lines ! i))"
    by blast
  have empty: "activeLyricIndex [] t = Inr (- 1)"
    by (simp add: activeLyricIndex_def)
  have none: "activeLyricIndex lines t = Inr (- 1)"
    if "\<forall>i<length lines. t < real_of_int (timeMs (lines ! i))"
  proof (rule ccontr)
    assume "activeLyricIndex lines t \<noteq> Inr (- 1)"
    with r have "0 \<le> r" by auto
    with r have "nat r < length lines" "int (nat r) \<le> r" by auto
    from le [OF this] that \<open>nat r < length lines\<close> show False by fastforce
  qed
  have some: "\<exists>i<length lines. activeLyricIndex lines t = Inr (int i)
              \<and> real_of_int (timeMs (lines ! i)) \<le> t
              \<and> (\<forall>j<length lines. real_of_int (timeMs (lines ! j)) \<le> t \<longrightarrow> j \<le> i)"
    if "\<exists>i<length lines. real_of_int (timeMs (lines ! i)) \<le> t"
  proof -
    from that obtain k where k: "k < length lines" "real_of_int (timeMs (lines ! k)) \<le> t" by blast
    have "\<not> r < int k" using gt [OF k(1)] k(2) by auto
    then have "0 \<le> r" by simp
    with r have n: "nat r < length lines" "int (nat r) = r" by auto
    have "\<forall>j<length lines. real_of_int (timeMs (lines ! j)) \<le> t \<longrightarrow> j \<le> nat r"
    proof (intro allI impI)
      fix j assume j: "j < length lines" "real_of_int (timeMs (lines ! j)) \<le> t"
      have "\<not> r < int j" using gt [OF j(1)] j(2) by auto
      then show "j \<le> nat r" by simp
    qed
    moreover have "real_of_int (timeMs (lines ! nat r)) \<le> t" using le [of "nat r"] n by simp
    ultimately show ?thesis using n r(1) by auto
  qed
  have boundary: "\<exists>i<length lines. activeLyricIndex lines t = Inr (int i)
              \<and> real_of_int (timeMs (lines ! i)) = t"
    if "\<exists>i<length lines. real_of_int (timeMs (lines ! i)) = t"
  proof -
    from that obtain k where k: "k < length lines" "real_of_int (timeMs (lines ! k)) = t" by blast
    then have "\<exists>i<length lines. real_of_int (timeMs (lines ! i)) \<le> t" by auto
    from some [OF this] obtain i where i: "i < length lines" "activeLyricIndex lines t = Inr (int i)"
      "real_of_int (timeMs (lines ! i)) \<le> t"
      "\<forall>j<length lines. real_of_int (timeMs (lines ! j)) \<le> t \<longrightarrow> j \<le> i" by blast
    from i(4) k have "k \<le> i" by auto
    then have "timeMs (lines ! k) \<le> timeMs (lines ! i)"
      using assms i(1) by (simp add: sorted_iff_nth_mono)
    with k(2) i(3) have "real_of_int (timeMs (lines ! i)) = t" by linarith
    with i show ?thesis by blast
  qed
  from empty none some boundary show ?thesis by blast
qed

lemma exampleTimeline_eval:
  "activeLyricIndex exampleTimeline 13000 = Inr 0"
  "activeLyricIndex exampleTimeline 11000 = Inr (- 1)"
  "activeLyricIndex exampleTimeline 15000 = Inr 1"
  by (simp_all add: exampleTimeline_def activeLyricIndex_def activeLyricIndex_loop.simps)

theorem activeLyricIndex_greatest_witness:
  "sorted (map timeMs exampleTimeline)
   \<and> (\<exists>i<length exampleTimeline. real_of_int (timeMs (exampleTimeline ! i)) = 15000)
   \<and> (\<exists>i<length exampleTimeline. activeLyricIndex exampleTimeline 15000 = Inr (int i)
              \<and> real_of_int (timeMs (exampleTimeline ! i)) = 15000)
   \<and> activeLyricIndex exampleTimeline 15000 = Inr 1
   \<and> activeLyricIndex exampleTimeline 13000 = Inr 0
   \<and> activeLyricIndex exampleTimeline 11000 = Inr (- 1)"
proof -
  have s: "sorted (map timeMs exampleTimeline)" by (simp add: exampleTimeline_def)
  have h: "\<exists>i<length exampleTimeline. real_of_int (timeMs (exampleTimeline ! i)) = 15000"
    by (rule exI [of _ 1]) (simp add: exampleTimeline_def)
  from activeLyricIndex_greatest [OF s, of 15000]
  have "(\<exists>i<length exampleTimeline. real_of_int (timeMs (exampleTimeline ! i)) = 15000) \<longrightarrow>
          (\<exists>i<length exampleTimeline. activeLyricIndex exampleTimeline 15000 = Inr (int i)
              \<and> real_of_int (timeMs (exampleTimeline ! i)) = 15000)"
    by (elim conjE)
  from this h have "\<exists>i<length exampleTimeline. activeLyricIndex exampleTimeline 15000 = Inr (int i)
              \<and> real_of_int (timeMs (exampleTimeline ! i)) = 15000" by (rule mp)
  with s h exampleTimeline_eval show ?thesis by (intro conjI)
qed

section \<open>Properties of the publish throttler\<close>

lemma spaced_snoc:
  "spaced m (ts @ [t]) \<longleftrightarrow> spaced m ts \<and> (ts = [] \<or> last ts + m \<le> t)"
  by (induction m ts rule: spaced.induct) auto


lemma publishPayload_inv:
  assumes "spaced m (map fst (sent s))"
    and "sent s = [] \<or> fst (last (sent s)) = lastMetadataSentAt s"
    and "lastMetadataSentAt s + m \<le> now"
    and "metadataFlushTimer s = None" and "timers s = []"
  shows "throttleInvariant m (publishPayload now p s)"
proof (cases "sent s = []")
  case True
  with assms show ?thesis
    by (simp add: throttleInvariant_def publishPayload_def)
next
  case False
  then have "last (map fst (sent s)) = fst (last (sent s))" by (simp add: last_map)
  with False assms show ?thesis
    by (simp add: throttleInvariant_def publishPayload_def spaced_snoc)
qed

lemma clearFlushTimer_simps:
  "throttleInvariant m s \<Longrightarrow> timers (clearFlushTimer s) = []"
  "metadataFlushTimer (clearFlushTimer s) = None"
  "sent (clearFlushTimer s) = sent s"
  "lastMetadataSentAt (clearFlushTimer s) = lastMetadataSentAt s"
  by (auto simp add: clearFlushTimer_def throttleInvariant_def split: option.splits)

lemma submitPayload_inv:
  assumes "throttleInvariant m s" and "m \<le> interval"
  shows "throttleInvariant m (submitPayload interval now p s)"
proof (cases "interval \<le> now - lastMetadataSentAt s")
  case True
  have "throttleInvariant m (publishPayload now p ((clearFlushTimer s)\<lparr> pendingMetadata := None \<rparr>))"
    using assms True
    by (intro publishPayload_inv) (auto simp add: clearFlushTimer_simps throttleInvariant_def)
  with True show ?thesis by (simp add: submitPayload_def)
next
  case False
  then show ?thesis using assms
    by (auto simp add: submitPayload_def throttleInvariant_def Let_def split: option.splits)
qed

lemma metadataEffect_inv:
  assumes "throttleInvariant m s" and "m \<le> interval"
  shows "throttleInvariant m (metadataEffect interval now c s)"
proof (cases c)
  case None
  have "throttleInvariant m ((clearFlushTimer s)\<lparr> pendingMetadata := None, lastSentMetadataSignature := None \<rparr>)"
    using assms(1) clearFlushTimer_simps(1) [OF assms(1)]
    by (simp add: throttleInvariant_def clearFlushTimer_simps)
  with None show ?thesis by (simp add: metadataEffect_def)
next
  case (Some p)
  with assms show ?thesis by (simp add: metadataEffect_def submitPayload_inv)
qed

lemma timerFires_inv:
  assumes "throttleInvariant m s" and "throttleStep s (now, TimerFires h) = Some s'"
  shows "throttleInvariant m s'"
proof -
  from assms(2) obtain due where due: "map_of (timers s) h = Some due" "due \<le> now"
    and s': "s' = flushTimerFired now (s\<lparr> timers := filter (\<lambda>(i, due). i \<noteq> h) (timers s) \<rparr>)"
    by (auto split: option.splits if_splits)
  from due(1) assms(1) have t: "metadataFlushTimer s = Some h" "timers s = [(h, due)]"
    "lastMetadataSentAt s + m \<le> due"
    by (auto simp add: throttleInvariant_def split: option.splits if_splits)
  from assms(1) t obtain p where p: "pendingMetadata s = Some p"
    by (auto simp add: throttleInvariant_def)
  have "throttleInvariant m
          (publishPayload now p (s\<lparr> timers := [], metadataFlushTimer := None, pendingMetadata := None \<rparr>))"
    using assms(1) t due(2) by (intro publishPayload_inv) (auto simp add: throttleInvariant_def)
  then show ?thesis using s' t p by (simp add: flushTimerFired_def)
qed

lemma throttleStep_inv:
  assumes "throttleInvariant m s" and "intervalAtLeast m e" and "throttleStep s e = Some s'"
  shows "throttleInvariant m s'"
proof -
  obtain now ev where e: "e = (now, ev)" by (cases e)
  show ?thesis
  proof (cases ev)
    case (EffectRuns interval c)
    with assms e show ?thesis by (auto simp add: metadataEffect_inv)
  next
    case (TimerFires h)
    with assms e show ?thesis using timerFires_inv by blast
  qed
qed

lemma throttleRun_inv:
  "throttleInvariant m s \<Longrightarrow> list_all (intervalAtLeast m) es \<Longrightarrow> throttleRun s es = Some s'
     \<Longrightarrow> throttleInvariant m s'"
proof (induction es arbitrary: s)
  case Nil
  then show ?case by simp
next
  case (Cons e es)
  from Cons.prems(3) obtain s1 where s1: "throttleStep s e = Some s1" "throttleRun s1 es = Some s'"
    by (auto split: option.splits)
  from Cons.prems(1,2) s1(1) have "throttleInvariant m s1"
    by (intro throttleStep_inv [of m s e s1]) simp_all
  with Cons.IH [of s1] Cons.prems(2) s1(2) show ?case by simp
qed

lemma initialThrottle_inv: "throttleInvariant m initialThrottle"
  by (simp add: throttleInvariant_def initialThrottle_def)

lemma intervalAtLeast_mono: "intervalAtLeast m e \<Longrightarrow> k \<le> m \<Longrightarrow> intervalAtLeast k e"
proof -
  assume a: "intervalAtLeast m e" "k \<le> m"
  obtain now ev where e: "e = (now, ev)" by (cases e)
  with a show ?thesis by (cases ev) auto
qed

lemma lower_bound_exists: "\<exists>m. list_all (intervalAtLeast m) es"
proof (induction es)
  case Nil
  show ?case by simp
next
  case (Cons e es)
  then obtain m where m: "list_all (intervalAtLeast m) es" by blast
  obtain now ev where e: "e = (now, ev)" by (cases e)
  show ?case
  proof (cases ev)
    case (EffectRuns interval c)
    have "list_all (intervalAtLeast (min m interval)) es"
      using m by (auto simp add: list_all_iff intro: intervalAtLeast_mono)
    with e EffectRuns have "list_all (intervalAtLeast (min m interval)) (e # es)" by simp
    then show ?thesis by blast
  next
    case (TimerFires h)
    with e m have "list_all (intervalAtLeast m) (e # es)" by simp
    then show ?thesis by blast
  qed
qed

lemma reachable_inv:
  assumes "throttleRun initialThrottle es = Some s"
  shows "\<exists>m. throttleInvariant m s"
proof -
  from lower_bound_exists obtain m where lb: "list_all (intervalAtLeast m) es" by blast
  have "throttleInvariant m s"
    using initialThrottle_inv lb assms by (rule throttleRun_inv)
  then show ?thesis by blast
qed


lemma submitPayload_deferred:
  assumes "throttleInvariant m s" and "now - lastMetadataSentAt s < interval"
  shows "sent (submitPayload interval now p s) = sent s"
    and "pendingMetadata (submitPayload interval now p s) = Some p"
    and "lastMetadataSentAt (submitPayload interval now p s) = lastMetadataSentAt s"
    and "metadataFlushTimer s \<noteq> None \<Longrightarrow> timers (submitPayload interval now p s) = timers s"
    and "metadataFlushTimer s \<noteq> None \<Longrightarrow>
           metadataFlushTimer (submitPayload interval now p s) = metadataFlushTimer s"
    and "metadataFlushTimer s = None \<Longrightarrow>
           timers (submitPayload interval now p s) = [(nextTimerId s, lastMetadataSentAt s + interval)]"
    and "\<exists>h due. metadataFlushTimer (submitPayload interval now p s) = Some h
           \<and> timers (submitPayload interval now p s) = [(h, due)]"
    and "m \<le> interval \<Longrightarrow>
         \<exists>h due. metadataFlushTimer (submitPayload interval now p s) = Some h
           \<and> timers (submitPayload interval now p s) = [(h, due)]
           \<and> lastMetadataSentAt s + m \<le> due"
  using assms
  by (auto simp add: submitPayload_def throttleInvariant_def Let_def split: option.splits)

lemma timerFires_sends_pending:
  assumes "throttleInvariant m s" and "pendingMetadata s = Some q"
    and "throttleStep s (now, TimerFires h) = Some s'"
  shows "sent s' = sent s @ [(now, q)] \<and> pendingMetadata s' = None \<and> timers s' = []
         \<and> metadataFlushTimer s' = None \<and> lastMetadataSentAt s + m \<le> now"
proof -
  from assms(3) obtain due where due: "map_of (timers s) h = Some due" "due \<le> now"
    and s': "s' = flushTimerFired now (s\<lparr> timers := filter (\<lambda>(i, due). i \<noteq> h) (timers s) \<rparr>)"
    by (auto split: option.splits if_splits)
  from due(1) assms(1) have t: "metadataFlushTimer s = Some h" "timers s = [(h, due)]"
    "lastMetadataSentAt s + m \<le> due"
    by (auto simp add: throttleInvariant_def split: option.splits if_splits)
  from s' t assms(2) due(2) show ?thesis
    by (simp add: flushTimerFired_def publishPayload_def)
qed

lemma throttleInvariant_one_timer:
  "throttleInvariant m s \<Longrightarrow> length (timers s) \<le> 1"
  by (auto simp add: throttleInvariant_def split: option.splits)

lemmas throttle_defs =
  initialThrottle_def publishPayload_def clearFlushTimer_def submitPayload_def
  metadataEffect_def flushTimerFired_def payloadA_def payloadB_def payloadC_def

lemma scenario_run:
  "throttleRun (publishPayload 0 payloadA initialThrottle) [(200, EffectRuns 1000 (Some payloadB))]
     = Some \<lparr> lastMetadataSentAt = 0, lastSentMetadataSignature = Some payloadA,
              pendingMetadata = Some payloadB, metadataFlushTimer = Some 0,
              timers = [(0, 1000)], nextTimerId = 1, sent = [(0, payloadA)] \<rparr>"
  "throttleRun (publishPayload 0 payloadA initialThrottle)
       [(200, EffectRuns 1000 (Some payloadB)), (700, EffectRuns 1000 (Some payloadC))]
     = Some \<lparr> lastMetadataSentAt = 0, lastSentMetadataSignature = Some payloadA,
              pendingMetadata = Some payloadC, metadataFlushTimer = Some 0,
              timers = [(0, 1000)], nextTimerId = 1, sent = [(0, payloadA)] \<rparr>"
  "throttleRun (publishPayload 0 payloadA initialThrottle)
       [(200, EffectRuns 1000 (Some payloadB)), (700, EffectRuns 1000 (Some payloadC)),
        (1000, TimerFires 0)]
     = Some \<lparr> lastMetadataSentAt = 1000, lastSentMetadataSignature = Some payloadC,
              pendingMetadata = None, metadataFlushTimer = None,
              timers = [], nextTimerId = 1, sent = [(0, payloadA), (1000, payloadC)] \<rparr>"
  "throttleRun (publishPayload 0 payloadA initialThrottle)
       [(200, EffectRuns 1000 (Some payloadB)), (700, EffectRuns 1000 (Some payloadC)),
        (999, TimerFires 0)]
     = None"
  by (simp_all add: throttle_defs Let_def)


lemma deferred_run:
  "throttleRun initialThrottle
       [(5000, EffectRuns 1000 (Some payloadA)), (5300, EffectRuns 1000 (Some payloadB))]
     = Some \<lparr> lastMetadataSentAt = 5000, lastSentMetadataSignature = Some payloadA,
              pendingMetadata = Some payloadB, metadataFlushTimer = Some 0,
              timers = [(0, 6000)], nextTimerId = 1, sent = [(5000, payloadA)] \<rparr>"
  by (simp add: throttle_defs Let_def)





text \<open>
  Claim C7.  A payload submitted before the interval has passed since the last send becomes
  the pending payload, whatever was pending before, and nothing is sent; a timeout that is
  already outstanding is kept, so that exactly one is outstanding afterwards, and no
  reachable state has more than one.  When the timeout's callback runs, the payload pending
  at that moment is sent and the pending slot and the timer are cleared.  With an interval
  of 1000ms and a send at time 0: a payload at 200 is deferred, a payload at 700 replaces it,
  the callback cannot run at 999, and at 1000 it sends the payload of 700.
\<close>

theorem throttle_pending_coalesced:
  assumes "throttleRun initialThrottle es = Some s"
  shows "length (timers s) \<le> 1
     \<and> (now - lastMetadataSentAt s < interval \<longrightarrow>
          pendingMetadata (submitPayload interval now p s) = Some p
          \<and> sent (submitPayload interval now p s) = sent s
          \<and> length (timers (submitPayload interval now p s)) = 1
          \<and> (metadataFlushTimer s \<noteq> None \<longrightarrow> timers (submitPayload interval now p s) = timers s))
     \<and> (pendingMetadata s = Some q \<and> throttleStep s (now, TimerFires h) = Some s' \<longrightarrow>
          sent s' = sent s @ [(now, q)] \<and> pendingMetadata s' = None \<and> timers s' = []
          \<and> metadataFlushTimer s' = None)
     \<and> throttleRun (publishPayload 0 payloadA initialThrottle)
          [(200, EffectRuns 1000 (Some payloadB))]
        = Some \<lparr> lastMetadataSentAt = 0, lastSentMetadataSignature = Some payloadA,
              pendingMetadata = Some payloadB, metadataFlushTimer = Some 0,
              timers = [(0, 1000)], nextTimerId = 1, sent = [(0, payloadA)] \<rparr>
     \<and> throttleRun (publishPayload 0 payloadA initialThrottle)
          [(200, EffectRuns 1000 (Some payloadB)), (700, EffectRuns 1000 (Some payloadC))]
        = Some \<lparr> lastMetadataSentAt = 0, lastSentMetadataSignature = Some payloadA,
              pendingMetadata = Some payloadC, metadataFlushTimer = Some 0,
              timers = [(0, 1000)], nextTimerId = 1, sent = [(0, payloadA)] \<rparr>
     \<and> throttleRun (publishPayload 0 payloadA initialThrottle)
          [(200, EffectRuns 1000 (Some payloadB)), (700, EffectRuns 1000 (Some payloadC)),
           (999, TimerFires 0)]
        = None
     \<and> throttleRun (publishPayload 0 payloadA initialThrottle)
          [(200, EffectRuns 1000 (Some payloadB)), (700, EffectRuns 1000 (Some payloadC)),
           (1000, TimerFires 0)]
        = Some \<lparr> lastMetadataSentAt = 1000, lastSentMetadataSignature = Some payloadC,
              pendingMetadata = None, metadataFlushTimer = None,
              timers = [], nextTimerId = 1, sent = [(0, payloadA), (1000, payloadC)] \<rparr>"
proof -
  from reachable_inv [OF assms] obtain m where inv: "throttleInvariant m s" by blast
  have a: "length (timers s) \<le> 1"
    using inv by (rule throttleInvariant_one_timer)
  have b: "now - lastMetadataSentAt s < interval \<longrightarrow>
          pendingMetadata (submitPayload interval now p s) = Some p
          \<and> sent (submitPayload interval now p s) = sent s
          \<and> length (timers (submitPayload interval now p s)) = 1
          \<and> (metadataFlushTimer s \<noteq> None \<longrightarrow> timers (submitPayload interval now p s) = timers s)"
  proof
    assume lt: "now - lastMetadataSentAt s < interval"
    from submitPayload_deferred(7) [OF inv lt, of p]
    have "length (timers (submitPayload interval now p s)) = 1" by auto
    with submitPayload_deferred(1,2,4) [OF inv lt, of p]
    show "pendingMetadata (submitPayload interval now p s) = Some p
          \<and> sent (submitPayload interval now p s) = sent s
          \<and> length (timers (submitPayload interval now p s)) = 1
          \<and> (metadataFlushTimer s \<noteq> None \<longrightarrow> timers (submitPayload interval now p s) = timers s)"
      by blast
  qed
  have c: "pendingMetadata s = Some q \<and> throttleStep s (now, TimerFires h) = Some s' \<longrightarrow>
          sent s' = sent s @ [(now, q)] \<and> pendingMetadata s' = None \<and> timers s' = []
          \<and> metadataFlushTimer s' = None"
    using timerFires_sends_pending [OF inv] by blast
  from a b c scenario_run(1,2,4,3) show ?thesis by (intro conjI)
qed

theorem throttle_pending_coalesced_witness:
  "throttleRun initialThrottle
       [(5000, EffectRuns 1000 (Some payloadA)), (5300, EffectRuns 1000 (Some payloadB))]
     = Some \<lparr> lastMetadataSentAt = 5000, lastSentMetadataSignature = Some payloadA,
              pendingMetadata = Some payloadB, metadataFlushTimer = Some 0,
              timers = [(0, 6000)], nextTimerId = 1, sent = [(5000, payloadA)] \<rparr>
   \<and> (5700 :: int) - 5000 < 1000
   \<and> pendingMetadata (submitPayload 1000 5700 payloadC
        \<lparr> lastMetadataSentAt = 5000, lastSentMetadataSignature = Some payloadA,
              pendingMetadata = Some payloadB, metadataFlushTimer = Some 0,
              timers = [(0, 6000)], nextTimerId = 1, sent = [(5000, payloadA)] \<rparr>) = Some payloadC
   \<and> timers (submitPayload 1000 5700 payloadC
        \<lparr> lastMetadataSentAt = 5000, lastSentMetadataSignature = Some payloadA,
              pendingMetadata = Some payloadB, metadataFlushTimer = Some 0,
              timers = [(0, 6000)], nextTimerId = 1, sent = [(5000, payloadA)] \<rparr>) = [(0, 6000)]"
proof -
  note inst = throttle_pending_coalesced [OF deferred_run, of 5700 1000 payloadC,
      THEN conjunct2, THEN conjunct1]
  have lt: "(5700 :: int) - 5000 < 1000" by simp
  from inst have r: "pendingMetadata (submitPayload 1000 5700 payloadC
        \<lparr> lastMetadataSentAt = 5000, lastSentMetadataSignature = Some payloadA,
              pendingMetadata = Some payloadB, metadataFlushTimer = Some 0,
              timers = [(0, 6000)], nextTimerId = 1, sent = [(5000, payloadA)] \<rparr>) = Some payloadC
     \<and> timers (submitPayload 1000 5700 payloadC
        \<lparr> lastMetadataSentAt = 5000, lastSentMetadataSignature = Some payloadA,
              pendingMetadata = Some payloadB, metadataFlushTimer = Some 0,
              timers = [(0, 6000)], nextTimerId = 1, sent = [(5000, payloadA)] \<rparr>) = [(0, 6000)]"
    by simp
  from deferred_run lt r show ?thesis by (intro conjI) simp_all
qed

section \<open>Properties of the text fitter\<close>

lemmas fit_defs = buildFittingWindows_def splitGraphemes_def trim_def trimEnd_def trimStart_def
  isWhitespace_def fallbackMeasure_def finalWindow_def pushWindow_def Let_def

lemma trim_Nil_iff: "trim s = [] \<longleftrightarrow> trimStart s = []"
proof
  assume "trimStart s = []"
  then show "trim s = []" by (simp add: trim_def trimEnd_def)
next
  assume a: "trim s = []"
  show "trimStart s = []"
  proof (rule ccontr)
    assume ne: "trimStart s \<noteq> []"
    then have "\<not> isWhitespace (hd (trimStart s))"
      unfolding trimStart_def by (rule hd_dropWhile)
    moreover have "hd (trimStart s) \<in> set (trimStart s)" using ne by simp
    moreover from a have "\<forall>c\<in>set (trimStart s). isWhitespace c"
      by (simp add: trim_def trimEnd_def dropWhile_eq_Nil_conv)
    ultimately show False by blast
  qed
qed

lemma trimStart_Nil_iff: "trimStart s = [] \<longleftrightarrow> (\<forall>c\<in>set s. isWhitespace c)"
  by (simp add: trimStart_def dropWhile_eq_Nil_conv)

lemma trimStart_keeps:
  assumes "c \<in> set s" and "\<not> isWhitespace c"
  shows "c \<in> set (trimStart s)"
proof -
  have "s = takeWhile isWhitespace s @ trimStart s" by (simp add: trimStart_def)
  then have "set s = set (takeWhile isWhitespace s) \<union> set (trimStart s)"
    by (metis set_append)
  moreover have "c \<notin> set (takeWhile isWhitespace s)"
    using assms(2) by (auto dest: set_takeWhileD)
  ultimately show ?thesis using assms(1) by blast
qed

lemma finalWindow_keeps:
  assumes "c \<in> set s" and "\<not> isWhitespace c"
  shows "c \<in> set (finalWindow s)"
  using assms by (simp add: finalWindow_def Let_def trimStart_keeps)

lemma finalWindow_Nil_iff: "finalWindow s = [] \<longleftrightarrow> s = []"
  by (auto simp add: finalWindow_def Let_def trimStart_def)

lemma pushWindow_mem: "w \<in> set (pushWindow ws w)"
  by (auto simp add: pushWindow_def)

lemma pushWindow_mono: "set ws \<subseteq> set (pushWindow ws w)"
  by (auto simp add: pushWindow_def)

lemma set_pushWindow: "set (pushWindow ws w) = insert w (set ws)"
  by (auto simp add: pushWindow_def)

lemma pushWindow_not_Nil: "pushWindow ws w \<noteq> []"
  by (simp add: pushWindow_def)

lemma extendWindow_shape:
  "\<exists>k\<le>length gs. fst (extendWindow m W c r gs) = c @ concat (take k gs)
      \<and> (snd (extendWindow m W c r gs) \<longrightarrow> r \<and> k = 0 \<or> k = length gs)"
proof (induction gs arbitrary: c r)
  case Nil
  then show ?case by simp
next
  case (Cons g gs)
  show ?case
  proof (cases "m (trimStart (c @ g)) \<le> W")
    case True
    from Cons.IH [of "c @ g" "gs = []"] obtain k where
      k: "k \<le> length gs" "fst (extendWindow m W (c @ g) (gs = []) gs) = (c @ g) @ concat (take k gs)"
        "snd (extendWindow m W (c @ g) (gs = []) gs) \<longrightarrow> (gs = []) \<and> k = 0 \<or> k = length gs"
      by blast
    have "Suc k \<le> length (g # gs)" using k(1) by simp
    moreover have "fst (extendWindow m W c r (g # gs)) = c @ concat (take (Suc k) (g # gs))"
      using True k(2) by simp
    moreover have "snd (extendWindow m W c r (g # gs)) \<longrightarrow> r \<and> Suc k = 0 \<or> Suc k = length (g # gs)"
      using True k(3) by auto
    ultimately show ?thesis by blast
  next
    case False
    then have "fst (extendWindow m W c r (g # gs)) = c @ concat (take 0 (g # gs))"
      and "snd (extendWindow m W c r (g # gs)) \<longrightarrow> r \<and> (0::nat) = 0 \<or> 0 = length (g # gs)"
      by simp_all
    then show ?thesis by blast
  qed
qed

text \<open>The candidate of one start position, after the single-grapheme fallback.\<close>

lemma scanned_candidate:
  fixes m W g rest
  defines "scanned \<equiv> extendWindow m W [] False (g # rest)"
  defines "candidate \<equiv> (if fst scanned = [] then g else fst scanned)"
  shows "set g \<subseteq> set candidate"
    and "snd scanned \<Longrightarrow> candidate = concat (g # rest)"
    and "g \<noteq> [] \<Longrightarrow> candidate \<noteq> []"
proof -
  from extendWindow_shape [of "g # rest" m W "[]" False] obtain k where
    k: "k \<le> length (g # rest)" "fst scanned = concat (take k (g # rest))"
      "snd scanned \<longrightarrow> k = length (g # rest)"
    unfolding scanned_def by auto
  show "set g \<subseteq> set candidate"
  proof (cases k)
    case 0
    with k(2) show ?thesis by (simp add: candidate_def)
  next
    case (Suc j)
    with k(2) show ?thesis by (auto simp add: candidate_def)
  qed
  show "candidate = concat (g # rest)" if "snd scanned"
  proof -
    from that k have "fst scanned = concat (g # rest)" by simp
    then show ?thesis by (auto simp add: candidate_def)
  qed
  show "candidate \<noteq> []" if "g \<noteq> []"
    using that by (simp add: candidate_def)
qed

lemma scanWindows_mono: "set ws \<subseteq> set (scanWindows m W gs ws)"
proof (induction gs arbitrary: ws)
  case Nil
  then show ?case by simp
next
  case (Cons g gs)
  show ?case
    using pushWindow_mono Cons.IH by (simp add: Let_def) blast
qed

lemma scanWindows_not_Nil: "gs \<noteq> [] \<or> ws \<noteq> [] \<Longrightarrow> scanWindows m W gs ws \<noteq> []"
proof (cases gs)
  case Nil
  assume "gs \<noteq> [] \<or> ws \<noteq> []"
  with Nil show ?thesis by simp
next
  case (Cons g rest)
  define scanned where "scanned = extendWindow m W [] False (g # rest)"
  define candidate where "candidate = (if fst scanned = [] then g else fst scanned)"
  define ws' where "ws' = pushWindow ws (finalWindow candidate)"
  have step: "scanWindows m W (g # rest) ws = (if snd scanned then ws' else scanWindows m W rest ws')"
    by (simp add: Let_def scanned_def candidate_def ws'_def)
  have "finalWindow candidate \<in> set ws'"
    by (simp add: ws'_def pushWindow_mem)
  moreover have "set ws' \<subseteq> set (scanWindows m W rest ws')"
    by (rule scanWindows_mono)
  ultimately have "finalWindow candidate \<in> set (scanWindows m W (g # rest) ws)"
    unfolding step by auto
  with Cons show ?thesis by auto
qed

lemma scanWindows_covers:
  assumes "c \<in> set (concat gs)" and "\<not> isWhitespace c"
  shows "\<exists>w\<in>set (scanWindows m W gs ws). c \<in> set w"
  using assms(1)
proof (induction gs arbitrary: ws)
  case Nil
  then show ?case by simp
next
  case (Cons g gs)
  define scanned where "scanned = extendWindow m W [] False (g # gs)"
  define candidate where "candidate = (if fst scanned = [] then g else fst scanned)"
  define ws' where "ws' = pushWindow ws (finalWindow candidate)"
  have step: "scanWindows m W (g # gs) ws = (if snd scanned then ws' else scanWindows m W gs ws')"
    by (simp add: Let_def scanned_def candidate_def ws'_def)
  have fw: "finalWindow candidate \<in> set ws'"
    by (simp add: ws'_def pushWindow_mem)
  show ?case
  proof (cases "snd scanned")
    case True
    then have "candidate = concat (g # gs)"
      unfolding candidate_def scanned_def by (rule scanned_candidate(2))
    with Cons.prems have "c \<in> set (finalWindow candidate)"
      by (intro finalWindow_keeps assms(2)) simp
    with fw True step show ?thesis by auto
  next
    case False
    show ?thesis
    proof (cases "c \<in> set g")
      case True
      have "set g \<subseteq> set candidate"
        unfolding candidate_def scanned_def by (rule scanned_candidate(1))
      with True have "c \<in> set (finalWindow candidate)"
        by (intro finalWindow_keeps assms(2)) auto
      moreover have "finalWindow candidate \<in> set (scanWindows m W gs ws')"
        using fw scanWindows_mono by blast
      ultimately show ?thesis using False step by auto
    next
      case notg: False
      with Cons.prems have "c \<in> set (concat gs)" by simp
      from Cons.IH [OF this, of ws'] show ?thesis using False step by simp
    qed
  qed
qed

lemma scanWindows_nonempty_windows:
  assumes "\<forall>g\<in>set gs. g \<noteq> []" and "\<forall>w\<in>set ws. w \<noteq> []"
  shows "\<forall>w\<in>set (scanWindows m W gs ws). w \<noteq> []"
  using assms
proof (induction gs arbitrary: ws)
  case Nil
  then show ?case by simp
next
  case (Cons g gs)
  define scanned where "scanned = extendWindow m W [] False (g # gs)"
  define candidate where "candidate = (if fst scanned = [] then g else fst scanned)"
  define ws' where "ws' = pushWindow ws (finalWindow candidate)"
  have step: "scanWindows m W (g # gs) ws = (if snd scanned then ws' else scanWindows m W gs ws')"
    by (simp add: Let_def scanned_def candidate_def ws'_def)
  from Cons.prems(1) have "g \<noteq> []" by simp
  then have "candidate \<noteq> []"
    unfolding candidate_def scanned_def by (rule scanned_candidate(3))
  then have "finalWindow candidate \<noteq> []" by (simp add: finalWindow_Nil_iff)
  with Cons.prems(2) have ws': "\<forall>w\<in>set ws'. w \<noteq> []"
    by (simp add: ws'_def set_pushWindow)
  from Cons.prems(1) have "\<forall>g\<in>set gs. g \<noteq> []" by simp
  from Cons.IH [OF this ws'] ws' step show ?case by simp
qed

lemma trimStart_keeps_cluster:
  assumes "g \<noteq> []" and "\<not> isWhitespace (hd g)"
  shows "\<exists>ps ss. trimStart (pre @ g @ post) = ps @ g @ ss"
proof (cases "\<forall>c\<in>set pre. isWhitespace c")
  case True
  from assms obtain c cs where g: "g = c # cs" "\<not> isWhitespace c"
    by (cases g) auto
  from True have "trimStart (pre @ g @ post) = dropWhile isWhitespace (g @ post)"
    by (simp add: trimStart_def dropWhile_append)
  also have "\<dots> = g @ post" using g by simp
  finally have "trimStart (pre @ g @ post) = [] @ g @ post" by simp
  then show ?thesis by blast
next
  case False
  then have "trimStart (pre @ g @ post) = dropWhile isWhitespace pre @ g @ post"
    by (auto simp add: trimStart_def dropWhile_append)
  then show ?thesis by blast
qed

lemma finalWindow_keeps_cluster:
  assumes "g \<noteq> []" and "\<not> isWhitespace (hd g)"
  shows "\<exists>ps ss. finalWindow (pre @ g @ post) = ps @ g @ ss"
proof (cases "trimStart (pre @ g @ post) = []")
  case True
  then have "finalWindow (pre @ g @ post) = pre @ g @ post"
    by (simp add: finalWindow_def)
  then show ?thesis by blast
next
  case False
  then have "finalWindow (pre @ g @ post) = trimStart (pre @ g @ post)"
    by (simp add: finalWindow_def)
  with trimStart_keeps_cluster [OF assms, of pre post] show ?thesis by simp
qed

lemma concat_split_cluster:
  assumes "g \<in> set gs"
  shows "\<exists>pre post. concat gs = pre @ g @ post"
proof -
  from assms obtain xs ys where "gs = xs @ g # ys" by (auto simp add: in_set_conv_decomp)
  then have "concat gs = concat xs @ g @ concat ys" by simp
  then show ?thesis by blast
qed

lemma scanned_candidate_prefix:
  fixes m W g rest
  defines "scanned \<equiv> extendWindow m W [] False (g # rest)"
  defines "candidate \<equiv> (if fst scanned = [] then g else fst scanned)"
  shows "\<exists>post. candidate = [] @ g @ post"
proof -
  from extendWindow_shape [of "g # rest" m W "[]" False] obtain k where
    k: "k \<le> length (g # rest)" "fst scanned = concat (take k (g # rest))"
    unfolding scanned_def by auto
  show ?thesis
  proof (cases "fst scanned = []")
    case True
    then have "candidate = [] @ g @ []" by (simp add: candidate_def)
    then show ?thesis by blast
  next
    case False
    with k(2) obtain j where "k = Suc j" by (cases k) auto
    with k(2) False have "candidate = [] @ g @ concat (take j rest)"
      by (simp add: candidate_def)
    then show ?thesis by blast
  qed
qed

lemma scanWindows_covers_cluster:
  assumes "g \<in> set gs" and "g \<noteq> []" and "\<not> isWhitespace (hd g)"
  shows "\<exists>w\<in>set (scanWindows m W gs ws). \<exists>ps ss. w = ps @ g @ ss"
  using assms(1)
proof (induction gs arbitrary: ws)
  case Nil
  then show ?case by simp
next
  case (Cons g0 gs)
  define scanned where "scanned = extendWindow m W [] False (g0 # gs)"
  define candidate where "candidate = (if fst scanned = [] then g0 else fst scanned)"
  define ws' where "ws' = pushWindow ws (finalWindow candidate)"
  have step: "scanWindows m W (g0 # gs) ws = (if snd scanned then ws' else scanWindows m W gs ws')"
    by (simp add: Let_def scanned_def candidate_def ws'_def)
  have fw: "finalWindow candidate \<in> set ws'"
    by (simp add: ws'_def pushWindow_mem)
  show ?case
  proof (cases "snd scanned")
    case True
    then have "candidate = concat (g0 # gs)"
      unfolding candidate_def scanned_def by (rule scanned_candidate(2))
    with concat_split_cluster [OF Cons.prems] obtain pre post where
      "candidate = pre @ g @ post" by auto
    with finalWindow_keeps_cluster [OF assms(2,3), of pre post]
    have "\<exists>ps ss. finalWindow candidate = ps @ g @ ss" by simp
    with fw True step show ?thesis by auto
  next
    case False
    show ?thesis
    proof (cases "g = g0")
      case True
      have "\<exists>post. candidate = [] @ g0 @ post"
        unfolding candidate_def scanned_def by (rule scanned_candidate_prefix)
      then obtain post where "candidate = [] @ g @ post" using True by blast
      with finalWindow_keeps_cluster [OF assms(2,3), of "[]" post]
      have "\<exists>ps ss. finalWindow candidate = ps @ g @ ss" by simp
      moreover have "finalWindow candidate \<in> set (scanWindows m W gs ws')"
        using fw scanWindows_mono by blast
      ultimately show ?thesis using False step by auto
    next
      case notg: False
      with Cons.prems have "g \<in> set gs" by simp
      from Cons.IH [OF this, of ws'] show ?thesis using False step by simp
    qed
  qed
qed

lemma splitGraphemes_None:
  "concat (splitGraphemes None s) = s" "[] \<notin> set (splitGraphemes None s)"
  by (induction s) (auto simp add: splitGraphemes_def)

lemma fitter_examples:
  "buildFittingWindows None '' a'' 100 fallbackMeasure = [''a'']"
  "buildFittingWindows None ''a b'' 8 fallbackMeasure = [''a'', ''b'']"
  "buildFittingWindows None '' a'' 0 fallbackMeasure = ['' '', ''a'']"
  "buildFittingWindows None ''  hello'' 100 fallbackMeasure = [''hello'']"
  by (simp_all add: fit_defs)

lemma fitter_fox:
  "buildFittingWindows None ''The quick brown fox'' 72 fallbackMeasure =
     [''The quick'', ''he quick '', ''e quick b'', ''quick bro'', ''uick brow'',
      ''ick brown'', ''ck brown '', ''k brown f'', ''brown fox'']"
  by (simp add: fit_defs)

lemma fitter_crlf:
  "splitGraphemes (Some segmentLatin1) crlfText =
     [''a'', ''b'', [CHR 0x0D, CHR 0x0A], ''c'', ''d'']"
  "buildFittingWindows (Some segmentLatin1) crlfText 16
     fallbackMeasure = [''ab'', ''b'', ''cd'']"
  by (simp_all add: fit_defs crlfText_def)

text \<open>
  Claim C9.  When the text without its leading whitespace fits the width, the fitter
  returns exactly one window, that text.
\<close>

theorem fitter_degenerate:
  assumes "measureWidth (trimStart text) \<le> maxWidthPx"
  shows "buildFittingWindows segmenter text maxWidthPx measureWidth = [trimStart text]"
proof (cases "trim text = []")
  case True
  then have "trimStart text = []" by (simp add: trim_Nil_iff)
  with True show ?thesis by (simp add: buildFittingWindows_def)
next
  case False
  with assms show ?thesis by (simp add: buildFittingWindows_def)
qed

theorem fitter_degenerate_witness:
  "fallbackMeasure (trimStart ''  hello'') \<le> 100
   \<and> buildFittingWindows None ''  hello'' 100 fallbackMeasure = [''hello'']"
proof -
  have h: "fallbackMeasure (trimStart ''  hello'') \<le> 100"
    by (simp add: fallbackMeasure_def trimStart_def isWhitespace_def)
  from fitter_degenerate [of fallbackMeasure "''  hello''" 100 None, OF h]
  have "buildFittingWindows None ''  hello'' 100 fallbackMeasure = [''hello'']"
    by (simp add: trimStart_def isWhitespace_def)
  with h show ?thesis by (intro conjI)
qed

text \<open>
  Claim C10.  For a text with at least one character that is not whitespace, every window
  the fitter returns is a non-empty string; a scanned window that trimming would empty is
  recorded untrimmed.  The grapheme clusters are non-empty strings, as they are without a
  segmenter and as a segmenter gives them.
\<close>

theorem fitter_windows_nonempty:
  assumes "\<exists>c\<in>set text. \<not> isWhitespace c"
    and "[] \<notin> set (splitGraphemes segmenter text)"
  shows "(\<forall>w\<in>set (buildFittingWindows segmenter text maxWidthPx measureWidth). w \<noteq> [])
       \<and> (trimStart candidate = [] \<longrightarrow> finalWindow candidate = candidate)"
proof -
  from assms(1) have ts: "trimStart text \<noteq> []" by (simp add: trimStart_Nil_iff)
  then have tr: "trim text \<noteq> []" by (simp add: trim_Nil_iff)
  from ts have tx: "text \<noteq> []" by (auto simp add: trimStart_def)
  have "\<forall>g\<in>set (splitGraphemes segmenter text). g \<noteq> []"
    using assms(2) by auto
  then have sc: "\<forall>w\<in>set (scanWindows measureWidth maxWidthPx (splitGraphemes segmenter text) []).
      w \<noteq> []"
    by (intro scanWindows_nonempty_windows) simp_all
  have "\<forall>w\<in>set (buildFittingWindows segmenter text maxWidthPx measureWidth). w \<noteq> []"
    using ts tr tx sc by (simp add: buildFittingWindows_def Let_def)
  moreover have "trimStart candidate = [] \<longrightarrow> finalWindow candidate = candidate"
    by (simp add: finalWindow_def)
  ultimately show ?thesis by (intro conjI)
qed

theorem fitter_windows_nonempty_witness:
  "(\<exists>c\<in>set '' a''. \<not> isWhitespace c)
   \<and> [] \<notin> set (splitGraphemes None '' a'')
   \<and> buildFittingWindows None '' a'' 0 fallbackMeasure = ['' '', ''a'']
   \<and> '' '' \<noteq> [] \<and> ''a'' \<noteq> []
   \<and> trimStart '' '' = [] \<and> finalWindow '' '' = '' ''"
proof -
  have h: "\<exists>c\<in>set '' a''. \<not> isWhitespace c"
    by (simp add: isWhitespace_def)
  have g: "[] \<notin> set (splitGraphemes None '' a'')"
    by (rule splitGraphemes_None(2))
  have t: "trimStart '' '' = []"
    by (simp add: trimStart_def isWhitespace_def)
  note inst = fitter_windows_nonempty [OF h g, of 0 fallbackMeasure "'' ''"]
  from inst t have f: "finalWindow '' '' = '' ''" by blast
  from inst have "\<forall>w\<in>set ['' '', ''a'']. w \<noteq> []"
    by (simp add: fitter_examples(3))
  then have "'' '' \<noteq> [] \<and> ''a'' \<noteq> []" by simp
  with h g t f fitter_examples(3) show ?thesis by (intro conjI) simp_all
qed

text \<open>
  Claim C1, as the code has it.  The fitter returns at least one window.  When the
  grapheme clusters are non-empty strings that make up the text, every cluster whose first
  character is not whitespace stands whole in one of the returned windows, and every
  character of the text that is not whitespace occurs in one of them.  A cluster that
  begins with whitespace can be absent from every window, or be cut: each window is
  recorded without its leading whitespace, and a text of whitespace only gives the single
  empty window.
\<close>

theorem fitter_coverage:
  assumes "concat (splitGraphemes segmenter text) = text"
    and "[] \<notin> set (splitGraphemes segmenter text)"
  shows "buildFittingWindows segmenter text maxWidthPx measureWidth \<noteq> []
   \<and> (\<forall>g\<in>set (splitGraphemes segmenter text). \<not> isWhitespace (hd g) \<longrightarrow>
         (\<exists>w\<in>set (buildFittingWindows segmenter text maxWidthPx measureWidth).
            \<exists>ps ss. w = ps @ g @ ss))
   \<and> (\<forall>c\<in>set text. \<not> isWhitespace c \<longrightarrow>
         (\<exists>w\<in>set (buildFittingWindows segmenter text maxWidthPx measureWidth). c \<in> set w))"
proof -
  define gs where "gs = splitGraphemes segmenter text"
  define scan where "scan = scanWindows measureWidth maxWidthPx gs []"
  define result where "result = buildFittingWindows segmenter text maxWidthPx measureWidth"
  have ne: "result \<noteq> []"
    by (simp add: result_def buildFittingWindows_def Let_def)
  have fits: "result = [trimStart text]"
    if "trim text \<noteq> []" "measureWidth (trimStart text) \<le> maxWidthPx"
    using that by (simp add: result_def buildFittingWindows_def)
  have scans: "result = scan"
    if "trim text \<noteq> []" "\<not> measureWidth (trimStart text) \<le> maxWidthPx" "scan \<noteq> []"
    using that by (simp add: result_def buildFittingWindows_def Let_def scan_def gs_def)
  have chars: "\<exists>w\<in>set result. c \<in> set w"
    if c: "c \<in> set text" "\<not> isWhitespace c" for c
  proof -
    from c have ts: "trimStart text \<noteq> []" by (auto simp add: trimStart_Nil_iff)
    then have tr: "trim text \<noteq> []" by (simp add: trim_Nil_iff)
    show ?thesis
    proof (cases "measureWidth (trimStart text) \<le> maxWidthPx")
      case True
      with fits [OF tr] c show ?thesis by (simp add: trimStart_keeps)
    next
      case False
      from c(1) assms(1) have "c \<in> set (concat gs)" by (simp add: gs_def)
      then have s: "\<exists>w\<in>set scan. c \<in> set w"
        unfolding scan_def using c(2) by (rule scanWindows_covers)
      then have "scan \<noteq> []" by auto
      with scans [OF tr False] s show ?thesis by simp
    qed
  qed
  have clusters: "\<exists>w\<in>set result. \<exists>ps ss. w = ps @ g @ ss"
    if g: "g \<in> set gs" "\<not> isWhitespace (hd g)" for g
  proof -
    from g(1) assms(2) have gne: "g \<noteq> []" by (auto simp add: gs_def)
    then have "hd g \<in> set g" by simp
    with g(1) have "hd g \<in> set (concat gs)" by auto
    with assms(1) have "hd g \<in> set text" by (simp add: gs_def)
    with g(2) have ts: "trimStart text \<noteq> []" by (auto simp add: trimStart_Nil_iff)
    then have tr: "trim text \<noteq> []" by (simp add: trim_Nil_iff)
    show ?thesis
    proof (cases "measureWidth (trimStart text) \<le> maxWidthPx")
      case True
      from concat_split_cluster [OF g(1)] assms(1) obtain pre post where
        "text = pre @ g @ post" by (auto simp add: gs_def)
      with trimStart_keeps_cluster [OF gne g(2), of pre post]
      have "\<exists>ps ss. trimStart text = ps @ g @ ss" by simp
      with fits [OF tr True] show ?thesis by simp
    next
      case False
      have s: "\<exists>w\<in>set scan. \<exists>ps ss. w = ps @ g @ ss"
        unfolding scan_def using g(1) gne g(2) by (rule scanWindows_covers_cluster)
      then have "scan \<noteq> []" by auto
      with scans [OF tr False] s show ?thesis by simp
    qed
  qed
  from ne clusters chars show ?thesis
    unfolding result_def gs_def by blast
qed

theorem fitter_coverage_witness:
  "concat (splitGraphemes (Some segmentLatin1) crlfText)
     = crlfText
   \<and> [] \<notin> set (splitGraphemes (Some segmentLatin1) crlfText)
   \<and> buildFittingWindows (Some segmentLatin1) crlfText 16
       fallbackMeasure = [''ab'', ''b'', ''cd'']
   \<and> ''c'' \<in> set (splitGraphemes (Some segmentLatin1) crlfText)
   \<and> \<not> isWhitespace (hd ''c'')
   \<and> (\<exists>w\<in>set (buildFittingWindows (Some segmentLatin1)
                  crlfText 16 fallbackMeasure).
         \<exists>ps ss. w = ps @ ''c'' @ ss)"
proof -
  have a: "concat (splitGraphemes (Some segmentLatin1) crlfText)
     = crlfText"
    unfolding fitter_crlf(1) by (simp add: crlfText_def)
  have b: "[] \<notin> set (splitGraphemes (Some segmentLatin1) crlfText)"
    by (simp add: fitter_crlf(1))
  have c: "''c'' \<in> set (splitGraphemes (Some segmentLatin1) crlfText)"
    by (simp add: fitter_crlf(1))
  have d: "\<not> isWhitespace (hd ''c'')" by (simp add: isWhitespace_def)
  from fitter_coverage [OF a b, of 16 fallbackMeasure, THEN conjunct2, THEN conjunct1] c d
  have "\<exists>w\<in>set (buildFittingWindows (Some segmentLatin1)
                  crlfText 16 fallbackMeasure).
         \<exists>ps ss. w = ps @ ''c'' @ ss"
    by blast
  with a b fitter_crlf(2) c d show ?thesis by (intro conjI)
qed

lemma cluster_cut:
  "scanWindows fallbackMeasure 8 [''x'', [CHR 0xA0, CHR ''y'']] [] = [''x'', ''y'']"
  by (simp add: trimStart_def isWhitespace_def fallbackMeasure_def finalWindow_def pushWindow_def
      Let_def)

theorem fitter_coverage_counterexample:
  "buildFittingWindows None '' a'' 100 fallbackMeasure = [''a'']
   \<and> CHR '' '' \<in> set '' a'' \<and> CHR '' '' \<notin> set ''a''
   \<and> buildFittingWindows None ''a b'' 8 fallbackMeasure = [''a'', ''b'']
   \<and> CHR '' '' \<in> set ''a b'' \<and> CHR '' '' \<notin> set ''a'' \<and> CHR '' '' \<notin> set ''b''
   \<and> buildFittingWindows (Some segmentLatin1) crlfText 16
       fallbackMeasure = [''ab'', ''b'', ''cd'']
   \<and> [CHR 0x0D, CHR 0x0A]
       \<in> set (splitGraphemes (Some segmentLatin1) crlfText)
   \<and> CHR 0x0D \<notin> set ''ab'' \<and> CHR 0x0D \<notin> set ''b'' \<and> CHR 0x0D \<notin> set ''cd''
   \<and> scanWindows fallbackMeasure 8 [''x'', [CHR 0xA0, CHR ''y'']] [] = [''x'', ''y'']
   \<and> CHR 0xA0 \<notin> set ''x'' \<and> CHR 0xA0 \<notin> set ''y''"
  by (intro conjI; (rule fitter_examples fitter_crlf cluster_cut | simp add: fitter_crlf(1)))

section \<open>Properties of the timeline parser\<close>

lemma digitRuns_greedy:
  assumes "\<forall>c\<in>set d. isDigit c" and "lo \<le> length d" and "length d \<le> hi"
    and "length d = hi \<or> r = [] \<or> \<not> isDigit (hd r)"
  shows "\<exists>xs. digitRuns lo hi (d @ r) = (d, r) # xs"
proof -
  have "takeWhile isDigit (take (hi - length d) r) = []"
  proof (cases "length d = hi \<or> r = []")
    case True
    then show ?thesis by auto
  next
    case False
    with assms(4) have "\<not> isDigit (hd r)" "r \<noteq> []" by auto
    then show ?thesis by (cases r; cases "hi - length d") simp_all
  qed
  moreover have "take hi (d @ r) = d @ take (hi - length d) r"
    using assms(3) by simp
  ultimately have "takeWhile isDigit (take hi (d @ r)) = d"
    using assms(1) by (simp add: takeWhile_append2)
  then have n: "length (takeWhile isDigit (take hi (d @ r))) = length d" by simp
  have r: "rev [lo ..< Suc (length d)] = length d # rev [lo ..< length d]"
    using assms(2) by simp
  have "digitRuns lo hi (d @ r) =
      map (\<lambda>k. (take k (d @ r), drop k (d @ r))) (rev [lo ..< Suc (length d)])"
    by (simp only: digitRuns_def Let_def n)
  also have "\<dots> = (d, r) # map (\<lambda>k. (take k (d @ r), drop k (d @ r))) (rev [lo ..< length d])"
    unfolding r by simp
  finally show ?thesis by blast
qed

lemma not_digit_punct [simp]:
  "\<not> isDigit CHR '':''" "\<not> isDigit CHR '']''" "\<not> isDigit CHR ''.''"
  by (simp_all add: isDigit_def)

lemma matchTimestamp_complete:
  assumes "timestampShape m1 m2 m3"
  shows "matchTimestamp (timestampSource m1 m2 m3 @ rest) = Some (m1, m2, m3, rest)"
proof -
  define tail where "tail = (case m3 of None \<Rightarrow> [] | Some d \<Rightarrow> CHR ''.'' # d) @ CHR '']'' # rest"
  have src: "timestampSource m1 m2 m3 @ rest = CHR ''['' # m1 @ CHR '':'' # m2 @ tail"
    by (simp add: timestampSource_def tail_def)
  from assms have m1: "\<forall>c\<in>set m1. isDigit c" "1 \<le> length m1" "length m1 \<le> 2"
    and m2: "\<forall>c\<in>set m2. isDigit c" "length m2 = 2"
    by (simp_all add: timestampShape_def)
  have close: "firstMatch (matchClose m1 m2) (fractionAlternatives tail) = Some (m1, m2, m3, rest)"
  proof (cases m3)
    case None
    then show ?thesis
      by (simp add: tail_def fractionAlternatives_def literal_def)
  next
    case (Some d)
    with assms have d: "\<forall>c\<in>set d. isDigit c" "1 \<le> length d" "length d \<le> 3"
      by (simp_all add: timestampShape_def)
    from digitRuns_greedy [OF d, of "CHR '']'' # rest"] obtain xs where
      "digitRuns 1 3 (d @ CHR '']'' # rest) = (d, CHR '']'' # rest) # xs" by auto
    with Some show ?thesis
      by (simp add: tail_def fractionAlternatives_def literal_def)
  qed
  from digitRuns_greedy [of m2 2 2 tail] m2 obtain ys where
    "digitRuns 2 2 (m2 @ tail) = (m2, tail) # ys" by auto
  with close have sec: "matchMinutes (m1, CHR '':'' # m2 @ tail) = Some (m1, m2, m3, rest)"
    by (simp add: literal_def)
  from digitRuns_greedy [OF m1, of "CHR '':'' # m2 @ tail"] obtain zs where
    "digitRuns 1 2 (m1 @ CHR '':'' # m2 @ tail) = (m1, CHR '':'' # m2 @ tail) # zs" by auto
  with sec show ?thesis
    unfolding src by (simp add: matchTimestamp_def literal_def)
qed

lemma matchTimestamp_iff:
  "matchTimestamp s = Some (m1, m2, m3, rest) \<longleftrightarrow>
     s = timestampSource m1 m2 m3 @ rest \<and> timestampShape m1 m2 m3"
  using matchTimestamp_sound matchTimestamp_complete by blast

lemma execAll_no_match:
  "(\<forall>k. matchTimestamp (drop k line) = None) \<Longrightarrow> execAll line = []"
proof (induction line)
  case Nil
  then show ?case by simp
next
  case (Cons c cs)
  from Cons.prems have "matchTimestamp (drop 0 (c # cs)) = None" by blast
  then have here: "matchTimestamp (c # cs) = None" by simp
  have "\<forall>k. matchTimestamp (drop k cs) = None"
  proof
    fix k
    from Cons.prems have "matchTimestamp (drop (Suc k) (c # cs)) = None" by blast
    then show "matchTimestamp (drop k cs) = None" by simp
  qed
  with Cons.IH here show ?case by simp
qed

lemma length_parseLine: "length (parseLine line) = length (execAll line)"
  by (simp add: parseLine_def Let_def)

lemma set_insertBy: "set (insertBy cmp x ys) = insert x (set ys)"
  by (induction ys) auto

lemma sorted_insertBy:
  "sorted (map timeMs ys) \<Longrightarrow> sorted (map timeMs (insertBy (\<lambda>a b. timeMs a - timeMs b) x ys))"
  by (induction ys) (auto simp add: set_insertBy)

lemma sorted_sortBy: "sorted (map timeMs (sortBy (\<lambda>a b. timeMs a - timeMs b) xs))"
  by (induction xs) (simp_all add: sortBy_def sorted_insertBy)

lemma filter_insertBy:
  "filter (\<lambda>l. timeMs l = t) (insertBy (\<lambda>a b. timeMs a - timeMs b) x ys) =
     filter (\<lambda>l. timeMs l = t) (x # ys)"
  by (induction ys) auto

lemma filter_sortBy:
  "filter (\<lambda>l. timeMs l = t) (sortBy (\<lambda>a b. timeMs a - timeMs b) xs) = filter (\<lambda>l. timeMs l = t) xs"
  by (induction xs) (simp_all add: sortBy_def filter_insertBy)

lemma replicate_small: "replicate 2 x = [x, x]" "replicate 3 x = [x, x, x]"
  by (simp_all add: numeral_2_eq_2 numeral_3_eq_3)

lemmas lrc_defs = replicate_small parseLrc_def sortBy_def emittedLines_def parseLine_def matchTimestamp_def
  digitRuns_def fractionAlternatives_def literal_def parseTimestampMs_def Number_def padEnd3_def
  digitValue_def isDigit_def trim_def trimEnd_def trimStart_def isWhitespace_def Let_def

lemma parse_example:
  "parseLrc (''[00:12.50]Hello'' @ [CHR 0x0A] @ ''[00:15.00]World'') = exampleTimeline"
  by (simp add: lrc_defs exampleTimeline_def)

lemma parse_ties:
  "emittedLines (''[00:15.00][00:05.00]b'' @ [CHR 0x0D, CHR 0x0A] @ ''[00:05.00]a'') =
     [\<lparr>timeMs = 15000, lineText = ''b''\<rparr>, \<lparr>timeMs = 5000, lineText = ''b''\<rparr>,
      \<lparr>timeMs = 5000, lineText = ''a''\<rparr>]"
  "parseLrc (''[00:15.00][00:05.00]b'' @ [CHR 0x0D, CHR 0x0A] @ ''[00:05.00]a'') =
     [\<lparr>timeMs = 5000, lineText = ''b''\<rparr>, \<lparr>timeMs = 5000, lineText = ''a''\<rparr>,
      \<lparr>timeMs = 15000, lineText = ''b''\<rparr>]"
  by (simp_all add: lrc_defs)

lemma parse_malformed:
  "parseLrc ''[00:99]late'' = [\<lparr>timeMs = 99000, lineText = ''late''\<rparr>]"
  "matchTimestamp ''[00:99]late'' = Some (''00'', ''99'', None, ''late'')"
  "parseLrc ''[00:61.5]'' = [\<lparr>timeMs = 61500, lineText = ''...''\<rparr>]"
  "parseLrc ''[ab:cd]x'' = []"
  "parseLrc ''[1:2]x'' = []"
  "parseLrc ''[100:00]x'' = []"
  "parseLrc ''[00:00.1234]x'' = []"
  "parseLrc ''[00:5x]x'' = []"
  by (simp_all add: lrc_defs)

lemma parseLine_single:
  assumes "timestampShape m1 m2 m3"
  shows "parseLine (timestampSource m1 m2 m3) =
           [\<lparr> timeMs = parseTimestampMs (m1, m2, m3), lineText = ''...'' \<rparr>]"
proof -
  obtain cs where src: "timestampSource m1 m2 m3 = CHR ''['' # cs"
    by (simp add: timestampSource_def)
  from matchTimestamp_complete [OF assms, of "[]"]
  have m: "matchTimestamp (CHR ''['' # cs) = Some (m1, m2, m3, [])"
    by (simp add: src)
  then have "execAll (CHR ''['' # cs) = [(m1, m2, m3)]"
    and "removeTimestamps (CHR ''['' # cs) = []"
    by simp_all
  then show ?thesis
    unfolding src by (simp add: parseLine_def trim_def trimStart_def trimEnd_def)
qed

text \<open>
  Claim C5.  The timeline \<open>parseLrc\<close> returns is ascending in \<open>timeMs\<close>, pair by adjacent
  pair, and the entries of any one \<open>timeMs\<close> stand in it in the order in which they were
  emitted.
\<close>

theorem parseLrc_sorted_stable:
  "sorted (map timeMs (parseLrc text))
   \<and> (\<forall>i. Suc i < length (parseLrc text) \<longrightarrow>
         timeMs (parseLrc text ! i) \<le> timeMs (parseLrc text ! Suc i))
   \<and> (\<forall>t. filter (\<lambda>l. timeMs l = t) (parseLrc text) =
            filter (\<lambda>l. timeMs l = t) (emittedLines text))"
proof -
  have s: "sorted (map timeMs (parseLrc text))"
    unfolding parseLrc_def by (rule sorted_sortBy)
  have "\<forall>i. Suc i < length (map timeMs (parseLrc text)) \<longrightarrow>
         map timeMs (parseLrc text) ! i \<le> map timeMs (parseLrc text) ! Suc i"
    using s by (simp only: sorted_iff_nth_Suc)
  then have a: "\<forall>i. Suc i < length (parseLrc text) \<longrightarrow>
         timeMs (parseLrc text ! i) \<le> timeMs (parseLrc text ! Suc i)"
    by simp
  have f: "\<forall>t. filter (\<lambda>l. timeMs l = t) (parseLrc text) =
            filter (\<lambda>l. timeMs l = t) (emittedLines text)"
    unfolding parseLrc_def by (simp add: filter_sortBy)
  from s a f show ?thesis by (intro conjI)
qed

theorem parseLrc_sorted_stable_witness:
  "parseLrc (''[00:15.00][00:05.00]b'' @ [CHR 0x0D, CHR 0x0A] @ ''[00:05.00]a'') =
     [\<lparr>timeMs = 5000, lineText = ''b''\<rparr>, \<lparr>timeMs = 5000, lineText = ''a''\<rparr>,
      \<lparr>timeMs = 15000, lineText = ''b''\<rparr>]
   \<and> emittedLines (''[00:15.00][00:05.00]b'' @ [CHR 0x0D, CHR 0x0A] @ ''[00:05.00]a'') =
     [\<lparr>timeMs = 15000, lineText = ''b''\<rparr>, \<lparr>timeMs = 5000, lineText = ''b''\<rparr>,
      \<lparr>timeMs = 5000, lineText = ''a''\<rparr>]
   \<and> (5000 :: int) \<le> 5000 \<and> (5000 :: int) \<le> 15000"
proof -
  note adjacent = parseLrc_sorted_stable
    [of "''[00:15.00][00:05.00]b'' @ [CHR 0x0D, CHR 0x0A] @ ''[00:05.00]a''",
      THEN conjunct2, THEN conjunct1]
  from adjacent [THEN spec, of 0] have "(5000 :: int) \<le> 5000"
    by (simp add: parse_ties(2))
  moreover from adjacent [THEN spec, of 1] have "(5000 :: int) \<le> 15000"
    by (simp add: parse_ties(2))
  ultimately show ?thesis using parse_ties by (intro conjI)
qed

text \<open>
  Claim C6, as the code has it.  The pattern matches exactly an opening bracket, one or two
  digits, a colon, two digits, optionally a dot and one to three digits, and a closing
  bracket.  A line in which no such fragment starts contributes no entry, and every match
  contributes exactly one; parsing has no failing branch.  The digits are not checked
  against a range: a seconds field from 60 to 99 is matched and counted as that many
  seconds.  Fragments with letters, a one-digit seconds field, three digits of minutes or
  four of fraction are not matched.
\<close>

theorem timestamp_grammar:
  "(matchTimestamp s = Some (m1, m2, m3, rest) \<longleftrightarrow>
      s = timestampSource m1 m2 m3 @ rest \<and> timestampShape m1 m2 m3)
   \<and> ((\<forall>k. matchTimestamp (drop k line) = None) \<longrightarrow> parseLine line = [])
   \<and> length (parseLine line) = length (execAll line)
   \<and> (timestampShape n1 n2 n3 \<longrightarrow>
        parseLine (timestampSource n1 n2 n3) =
          [\<lparr> timeMs = Number n1 * 60000 + Number n2 * 1000
                 + Number (padEnd3 (case n3 of None \<Rightarrow> ''0'' | Some f \<Rightarrow> f)),
             lineText = ''...'' \<rparr>])
   \<and> parseLrc ''[00:99]late'' = [\<lparr>timeMs = 99000, lineText = ''late''\<rparr>]
   \<and> parseLrc ''[00:61.5]'' = [\<lparr>timeMs = 61500, lineText = ''...''\<rparr>]
   \<and> parseLrc ''[ab:cd]x'' = []
   \<and> parseLrc ''[1:2]x'' = []
   \<and> parseLrc ''[100:00]x'' = []
   \<and> parseLrc ''[00:00.1234]x'' = []"
proof -
  have a: "(\<forall>k. matchTimestamp (drop k line) = None) \<longrightarrow> parseLine line = []"
    using execAll_no_match [of line] by (simp add: parseLine_def)
  have b: "timestampShape n1 n2 n3 \<longrightarrow>
        parseLine (timestampSource n1 n2 n3) =
          [\<lparr> timeMs = Number n1 * 60000 + Number n2 * 1000
                 + Number (padEnd3 (case n3 of None \<Rightarrow> ''0'' | Some f \<Rightarrow> f)),
             lineText = ''...'' \<rparr>]"
    using parseLine_single [of n1 n2 n3] by (simp add: parseTimestampMs_def)
  from matchTimestamp_iff [of s m1 m2 m3 rest] a length_parseLine [of line] b
    parse_malformed(1,3,4,5,6,7)
  show ?thesis by (intro conjI)
qed

theorem timestamp_grammar_witness:
  "(\<forall>k. matchTimestamp (drop k ''[ab:cd]x'') = None)
   \<and> parseLine ''[ab:cd]x'' = []
   \<and> timestampShape ''00'' ''99'' None
   \<and> parseLine ''[00:99]'' = [\<lparr>timeMs = 99000, lineText = ''...''\<rparr>]"
proof -
  have none: "\<forall>k. matchTimestamp (drop k ''[ab:cd]x'') = None"
  proof
    fix k :: nat
    consider "k = 0" | "k = 1" | "k = 2" | "k = 3" | "k = 4" | "k = 5" | "k = 6" | "k = 7"
      | "8 \<le> k" by linarith
    then show "matchTimestamp (drop k ''[ab:cd]x'') = None"
      by cases (simp_all add: matchTimestamp_def literal_def digitRuns_def isDigit_def)
  qed
  have shape: "timestampShape ''00'' ''99'' None"
    by (simp add: timestampShape_def isDigit_def)
  note inst = timestamp_grammar [of _ _ _ _ _ "''[ab:cd]x''" "''00''" "''99''" None]
  from inst none have l: "parseLine ''[ab:cd]x'' = []" by blast
  from inst shape have
    "parseLine (timestampSource ''00'' ''99'' None) =
       [\<lparr> timeMs = Number ''00'' * 60000 + Number ''99'' * 1000
                 + Number (padEnd3 (case None of None \<Rightarrow> ''0'' | Some f \<Rightarrow> f)),
             lineText = ''...'' \<rparr>]"
    by blast
  then have e: "parseLine ''[00:99]'' = [\<lparr>timeMs = 99000, lineText = ''...''\<rparr>]"
    by (simp add: timestampSource_def Number_def padEnd3_def digitValue_def replicate_small)
  from none l shape e show ?thesis by (intro conjI)
qed

theorem timestamp_out_of_range_counterexample:
  "matchTimestamp ''[00:99]late'' = Some (''00'', ''99'', None, ''late'')
   \<and> parseLrc ''[00:99]late'' = [\<lparr>timeMs = 99000, lineText = ''late''\<rparr>]"
  using parse_malformed(1,2) by (intro conjI)

end
